theory Spec2Isabelle
  imports Main "HOL-Library.Word" "HOL-Library.Sublist"
begin

section \<open>logerrors: sliding-window message statistics\<close>

text \<open>
  A shallow embedding of \<^verbatim>\<open>logerrors.c\<close>. The shared-memory structures are records, the
  fixed-size arrays are lists, the atomic 32-bit counters are \<open>32 word\<close>s (every operation
  is modelled as one sequential step), and the hash table is a finite map from the error
  code to its entry. A failed \<^verbatim>\<open>ereport(ERROR, ...)\<close> and the crashes of the C code (a
  null pointer, a division by zero, an index beyond an array) are values of \<open>error\<close>.
\<close>

subsection \<open>Constants of constants.h\<close>

type_synonym uint32 = "32 word"
type_synonym int32 = "32 word"
type_synonym uint64 = "64 word"

text \<open>
  Modelled from the spec: \<^verbatim>\<open>constants.h\<close> is not among the sources. The two array bounds are
  taken from the declaration of \<^verbatim>\<open>struct message_info\<close>, whose comment ties the literals
  \<^verbatim>\<open>3\<close> and \<^verbatim>\<open>360\<close> to \<^verbatim>\<open>message_types_count\<close> and \<^verbatim>\<open>max_number_of_intervals\<close>
  (the spec bounds the ring length by 360 and names three severity types).
\<close>

definition message_types_count :: nat where
  "message_types_count = 3"

definition max_number_of_intervals :: nat where
  "max_number_of_intervals = 360"

text \<open>
  Modelled from the spec: the tables of \<^verbatim>\<open>constants.h\<close> are parameters. \<open>error_table\<close>
  holds the parallel arrays \<^verbatim>\<open>error_codes\<close> and \<^verbatim>\<open>error_names\<close>, both of length
  \<^verbatim>\<open>error_types_count\<close>, as a list of pairs.
\<close>

record constants =
  error_table :: "(int \<times> string) list"
  message_types_codes :: "int list"
  message_type_names :: "string list"
  not_known_error_code :: int

definition error_codes :: "constants \<Rightarrow> int list" where
  "error_codes K = map fst (error_table K)"

definition error_names :: "constants \<Rightarrow> string list" where
  "error_names K = map snd (error_table K)"

definition error_types_count :: "constants \<Rightarrow> nat" where
  "error_types_count K = length (error_table K)"

text \<open>
  What the code relies on in the tables: one code and one name per message type, no code
  listed twice, and the fallback code among the registered ones.
\<close>

definition constants_ok :: "constants \<Rightarrow> bool" where
  "constants_ok K \<longleftrightarrow>
     length (message_types_codes K) = message_types_count \<and>
     length (message_type_names K) = message_types_count \<and>
     distinct (message_types_codes K) \<and>
     distinct (error_codes K) \<and>
     not_known_error_code K \<in> set (error_codes K)"

subsection \<open>Shared structures\<close>

record MessageInfo =
  key :: int
  message_count :: "uint32 list"
  sum_in_buffer :: "int32 list"
  intervals :: "uint32 list list"
  name :: string

record SlowLogInfo =
  count :: uint32
  reset_time :: uint64

record GlobalInfo =
  interval :: int32
  intervals_count :: int32
  current_interval_index :: uint32
  total_count :: "uint32 list"
  slow_log_info :: SlowLogInfo

type_synonym HTAB = "int \<rightharpoonup> MessageInfo"

text \<open>The two static pointers of the module; \<open>None\<close> is \<^verbatim>\<open>NULL\<close>.\<close>

record state =
  messages_info_hashtable :: "HTAB option"
  global_variables :: "GlobalInfo option"

text \<open>The GUC variables \<^verbatim>\<open>interval\<close> and \<^verbatim>\<open>intervals_count\<close>.\<close>

record guc =
  guc_interval :: int32
  guc_intervals_count :: int32

datatype error =
    ObjectNotInPrerequisiteState
  | FeatureNotSupported
  | NullPointer
  | DivisionByZero
  | IndexOutOfRange

subsection \<open>Initialisation\<close>

text \<open>
  \<^verbatim>\<open>MemSet(start, 0, len)\<close> on an array of 4-byte counters: it clears \<open>len\<close> bytes, that
  is the first \<open>len div 4\<close> counters and the low-address bytes of the next one (the low-order
  bytes, on a little-endian machine).
\<close>

definition MemSet_u32 :: "uint32 list \<Rightarrow> nat \<Rightarrow> uint32 list" where
  "MemSet_u32 xs len =
     map (\<lambda>(i, w). if 4 * (i + 1) \<le> len then 0
                    else if 4 * i < len
                      then push_bit (8 * (len - 4 * i)) (drop_bit (8 * (len - 4 * i)) w)
                    else w)
         (enumerate 0 xs)"

text \<open>
  An entry that \<^verbatim>\<open>hash_search(..., HASH_ENTER, ...)\<close> creates lies in the shared segment,
  which is zero-filled when it is allocated.
\<close>

definition zero_entry :: "int \<Rightarrow> MessageInfo" where
  "zero_entry k =
     \<lparr>key = k,
      message_count = replicate 3 0,
      sum_in_buffer = replicate 3 0,
      intervals = replicate 3 (replicate 360 0),
      name = []\<rparr>"

definition zero_global :: GlobalInfo where
  "zero_global =
     \<lparr>interval = 0, intervals_count = 0, current_interval_index = 0,
      total_count = replicate 3 0,
      slow_log_info = \<lparr>count = 0, reset_time = 0\<rparr>\<rparr>"

definition hash_enter :: "HTAB \<Rightarrow> int \<Rightarrow> MessageInfo" where
  "hash_enter tbl k = (case tbl k of Some e \<Rightarrow> e | None \<Rightarrow> zero_entry k)"

definition global_variables_init :: "guc \<Rightarrow> GlobalInfo \<Rightarrow> GlobalInfo" where
  "global_variables_init cfg g =
     g\<lparr>intervals_count := guc_intervals_count cfg, interval := guc_interval cfg\<rparr>"

definition slow_log_info_init :: "uint64 \<Rightarrow> GlobalInfo \<Rightarrow> GlobalInfo" where
  "slow_log_info_init now g = g\<lparr>slow_log_info := \<lparr>count = 0, reset_time = now\<rparr>\<rparr>"

text \<open>The body of the loop over \<open>j\<close> in \<^verbatim>\<open>logerrors_init\<close>.\<close>

definition init_type :: "string \<Rightarrow> nat \<Rightarrow> MessageInfo \<Rightarrow> MessageInfo" where
  "init_type nm j elem =
     elem\<lparr>message_count := (message_count elem)[j := 0],
          name := nm,
          intervals := (intervals elem)[j := MemSet_u32 (intervals elem ! j) max_number_of_intervals],
          sum_in_buffer := (sum_in_buffer elem)[j := 0]\<rparr>"

definition init_elem :: "string \<Rightarrow> MessageInfo \<Rightarrow> MessageInfo" where
  "init_elem nm elem = fold (init_type nm) [0..<message_types_count] elem"

fun init_entries :: "(int \<times> string) list \<Rightarrow> HTAB \<Rightarrow> HTAB" where
  "init_entries [] tbl = tbl"
| "init_entries ((c, nm) # rest) tbl =
     init_entries rest (tbl(c \<mapsto> init_elem nm (hash_enter tbl c)))"

definition init_total_count :: "uint32 list \<Rightarrow> uint32 list" where
  "init_total_count tc =
     fold (\<lambda>i xs. xs[i := 0]) [0..<message_types_count] (MemSet_u32 tc message_types_count)"

text \<open>
  \<^verbatim>\<open>logerrors_init\<close>; \<open>now\<close> is what \<^verbatim>\<open>GetCurrentTimestamp()\<close> returns. It checks
  neither pointer, so a null one is dereferenced.
\<close>

definition logerrors_init :: "constants \<Rightarrow> uint64 \<Rightarrow> state \<Rightarrow> error + state" where
  "logerrors_init K now s =
     (case messages_info_hashtable s of
        None \<Rightarrow> Inl NullPointer
      | Some tbl \<Rightarrow>
         (case global_variables s of
            None \<Rightarrow> Inl NullPointer
          | Some g \<Rightarrow>
              Inr \<lparr>messages_info_hashtable = Some (init_entries (error_table K) tbl),
                   global_variables =
                     Some (slow_log_info_init now
                       (g\<lparr>current_interval_index := 0,
                          total_count := init_total_count (total_count g)\<rparr>))\<rparr>))"

text \<open>
  \<^verbatim>\<open>pgss_shmem_startup\<close> on the shared structures \<open>(tbl, g)\<close> that \<^verbatim>\<open>ShmemInitHash\<close> and
  \<^verbatim>\<open>ShmemInitStruct\<close> return. Only \<^verbatim>\<open>global_variables_init\<close> is under the test of
  \<^verbatim>\<open>IsUnderPostmaster\<close>; \<^verbatim>\<open>logerrors_init\<close> always runs.
\<close>

definition pgss_shmem_startup ::
  "constants \<Rightarrow> guc \<Rightarrow> bool \<Rightarrow> uint64 \<Rightarrow> HTAB \<times> GlobalInfo \<Rightarrow> error + state" where
  "pgss_shmem_startup K cfg IsUnderPostmaster now shm =
     logerrors_init K now
       \<lparr>messages_info_hashtable = Some (fst shm),
        global_variables =
          Some (if \<not> IsUnderPostmaster then global_variables_init cfg (snd shm) else snd shm)\<rparr>"

text \<open>The state of a module that is not loaded yet, and a freshly allocated segment.\<close>

definition not_loaded :: state where
  "not_loaded = \<lparr>messages_info_hashtable = None, global_variables = None\<rparr>"

definition fresh_shmem :: "HTAB \<times> GlobalInfo" where
  "fresh_shmem = (Map.empty, zero_global)"

subsection \<open>The rotation: logerrors_update_info\<close>

text \<open>The body of the inner loop, on the entry \<open>info\<close> that \<^verbatim>\<open>hash_search\<close> found.\<close>

definition rotate_entry :: "nat \<Rightarrow> nat \<Rightarrow> MessageInfo \<Rightarrow> MessageInfo" where
  "rotate_entry j idx info =
     (let message_count' = message_count info ! j in
      info\<lparr>sum_in_buffer :=
             (sum_in_buffer info)
               [j := sum_in_buffer info ! j - intervals info ! j ! idx + message_count'],
           intervals := (intervals info)[j := (intervals info ! j)[idx := message_count']],
           message_count := (message_count info)[j := 0]\<rparr>)"

fun update_codes :: "nat \<Rightarrow> nat \<Rightarrow> int list \<Rightarrow> HTAB \<Rightarrow> error + HTAB" where
  "update_codes j idx [] tbl = Inr tbl"
| "update_codes j idx (c # cs) tbl =
     (case tbl c of
        None \<Rightarrow> Inl NullPointer
      | Some info \<Rightarrow>
          if max_number_of_intervals \<le> idx then Inl IndexOutOfRange
          else update_codes j idx cs (tbl(c \<mapsto> rotate_entry j idx info)))"

fun update_types :: "nat list \<Rightarrow> nat \<Rightarrow> int list \<Rightarrow> HTAB \<Rightarrow> error + HTAB" where
  "update_types [] idx cs tbl = Inr tbl"
| "update_types (j # js) idx cs tbl =
     (case update_codes j idx cs tbl of
        Inl e \<Rightarrow> Inl e
      | Inr tbl' \<Rightarrow> update_types js idx cs tbl')"

definition logerrors_update_info :: "constants \<Rightarrow> state \<Rightarrow> error + state" where
  "logerrors_update_info K s =
     (case (messages_info_hashtable s, global_variables s) of
        (Some tbl, Some g) \<Rightarrow>
          (case update_types [0..<message_types_count]
                  (unat (current_interval_index g)) (error_codes K) tbl of
             Inl e \<Rightarrow> Inl e
           | Inr tbl' \<Rightarrow>
               if intervals_count g = 0 then Inl DivisionByZero
               else Inr \<lparr>messages_info_hashtable = Some tbl',
                         global_variables =
                           Some (g\<lparr>current_interval_index :=
                                     (current_interval_index g + 1) mod intervals_count g\<rparr>)\<rparr>)
      | _ \<Rightarrow> Inr s)"

subsection \<open>The log hook\<close>

record ErrorData =
  elevel :: int
  sqlerrcode :: int
  message :: "string option"

text \<open>What the hook reads of its process: \<^verbatim>\<open>MyProc != NULL\<close> and \<^verbatim>\<open>proc_exit_inprogress\<close>.\<close>

record backend =
  MyProc :: bool
  proc_exit_inprogress :: bool

text \<open>\<^verbatim>\<open>strstr\<close>: the rest of the text from the first occurrence on, or \<open>None\<close> for \<^verbatim>\<open>NULL\<close>.\<close>

fun strstr :: "string \<Rightarrow> string \<Rightarrow> string option" where
  "strstr [] needle = (if needle = [] then Some [] else None)"
| "strstr (h # hs) needle =
     (if prefix needle (h # hs) then Some (h # hs) else strstr hs needle)"

text \<open>
  The loop over the message types. An unknown code falls back to the entry of
  \<^verbatim>\<open>not_known_error_code\<close>, which is dereferenced without a test. The note that
  \<^verbatim>\<open>elog(LOG, ...)\<close> writes for an unknown code and the call of the previous hook touch
  none of the shared counters and are left out.
\<close>

fun count_message ::
  "constants \<Rightarrow> ErrorData \<Rightarrow> nat list \<Rightarrow> HTAB \<times> uint32 list \<Rightarrow> error + HTAB \<times> uint32 list" where
  "count_message K edata [] st = Inr st"
| "count_message K edata (j # js) (tbl, tc) =
     (if elevel edata \<noteq> message_types_codes K ! j then count_message K edata js (tbl, tc)
      else
        (case (case tbl (sqlerrcode edata) of
                 Some elem \<Rightarrow> Some (sqlerrcode edata, elem)
               | None \<Rightarrow> map_option (Pair (not_known_error_code K)) (tbl (not_known_error_code K))) of
           None \<Rightarrow> Inl NullPointer
         | Some (k, elem) \<Rightarrow>
             count_message K edata js
               (tbl(k \<mapsto> elem\<lparr>message_count := (message_count elem)[j := message_count elem ! j + 1]\<rparr>),
                tc[j := tc ! j + 1])))"

definition is_slow :: "ErrorData \<Rightarrow> bool" where
  "is_slow edata =
     (case message edata of None \<Rightarrow> False | Some m \<Rightarrow> strstr m ''duration:'' \<noteq> None)"

definition logerrors_emit_log_hook ::
  "constants \<Rightarrow> backend \<Rightarrow> ErrorData \<Rightarrow> state \<Rightarrow> error + state" where
  "logerrors_emit_log_hook K proc edata s =
     (case (messages_info_hashtable s, global_variables s) of
        (Some tbl, Some g) \<Rightarrow>
          if MyProc proc \<and> \<not> proc_exit_inprogress proc then
            (case count_message K edata [0..<message_types_count] (tbl, total_count g) of
               Inl e \<Rightarrow> Inl e
             | Inr (tbl', tc') \<Rightarrow>
                 Inr \<lparr>messages_info_hashtable = Some tbl',
                      global_variables =
                        Some (g\<lparr>total_count := tc',
                                slow_log_info :=
                                  (if is_slow edata
                                   then (slow_log_info g)\<lparr>count := count (slow_log_info g) + 1\<rparr>
                                   else slow_log_info g)\<rparr>)\<rparr>)
          else Inr s
      | _ \<Rightarrow> Inr s)"

subsection \<open>The SQL functions\<close>

text \<open>
  What the set-returning functions test of their call: that \<^verbatim>\<open>rsinfo\<close> is a
  \<^verbatim>\<open>ReturnSetInfo\<close>, that it allows \<^verbatim>\<open>SFRM_Materialize\<close>, and that the result type is
  a row type.
\<close>

record fcinfo =
  rsinfo_is_ReturnSetInfo :: bool
  materialize_allowed :: bool
  result_is_composite :: bool

text \<open>A tuple of \<^verbatim>\<open>pg_log_errors_stats\<close>; \<open>None\<close> is the SQL null.\<close>

record row =
  row_time_interval :: "int32 option"
  row_type :: string
  row_message :: string
  row_count :: int32

text \<open>The division of C on \<^verbatim>\<open>int\<close>, which truncates towards zero.\<close>

definition c_div :: "int32 \<Rightarrow> int32 \<Rightarrow> int32" where
  "c_div a b = word_of_int (sgn (sint a) * sgn (sint b) * (\<bar>sint a\<bar> div \<bar>sint b\<bar>))"

text \<open>
  The loop over the error codes, for the message type \<open>lvl_i\<close> of name \<open>ty\<close>; the
  tuple store is the list of the tuples put so far.
\<close>

fun stats_codes ::
  "GlobalInfo \<Rightarrow> HTAB \<Rightarrow> string \<Rightarrow> nat \<Rightarrow> int list \<Rightarrow> row list \<Rightarrow> error + row list" where
  "stats_codes g tbl ty lvl_i [] tupstore = Inr tupstore"
| "stats_codes g tbl ty lvl_i (c # cs) tupstore =
     (case tbl c of
        None \<Rightarrow> stats_codes g tbl ty lvl_i cs tupstore
      | Some info \<Rightarrow>
          (let short_interval = c_div (interval g) 1000;
               long_interval = short_interval * intervals_count g
           in if intervals_count g = 0 then Inl DivisionByZero
              else
               (let prev_interval_index =
                      unat ((current_interval_index g - 1 + intervals_count g)
                              mod intervals_count g)
                in if max_number_of_intervals \<le> prev_interval_index then Inl IndexOutOfRange
                   else
                    (let errors_in_long_interval = sum_in_buffer info ! lvl_i;
                         errors_in_short_interval = intervals info ! lvl_i ! prev_interval_index;
                         tupstore1 =
                           (if 0 <s errors_in_long_interval
                            then tupstore @
                              [\<lparr>row_time_interval = Some long_interval, row_type = ty,
                                row_message = name info, row_count = errors_in_long_interval\<rparr>]
                            else tupstore);
                         tupstore2 =
                           (if 0 <s errors_in_short_interval
                            then tupstore1 @
                              [\<lparr>row_time_interval = Some short_interval, row_type = ty,
                                row_message = name info, row_count = errors_in_short_interval\<rparr>]
                            else tupstore1)
                     in stats_codes g tbl ty lvl_i cs tupstore2))))"

fun stats_types ::
  "constants \<Rightarrow> GlobalInfo \<Rightarrow> HTAB \<Rightarrow> nat list \<Rightarrow> row list \<Rightarrow> error + row list" where
  "stats_types K g tbl [] tupstore = Inr tupstore"
| "stats_types K g tbl (lvl_i # ls) tupstore =
     (case stats_codes g tbl (message_type_names K ! lvl_i) lvl_i (error_codes K)
             (tupstore @
               [\<lparr>row_time_interval = None, row_type = message_type_names K ! lvl_i,
                 row_message = ''TOTAL'', row_count = total_count g ! lvl_i\<rparr>]) of
        Inl e \<Rightarrow> Inl e
      | Inr tupstore' \<Rightarrow> stats_types K g tbl ls tupstore')"

definition pg_log_errors_stats :: "constants \<Rightarrow> fcinfo \<Rightarrow> state \<Rightarrow> error + row list" where
  "pg_log_errors_stats K fc s =
     (case (messages_info_hashtable s, global_variables s) of
        (Some tbl, Some g) \<Rightarrow>
          if \<not> rsinfo_is_ReturnSetInfo fc then Inl FeatureNotSupported
          else if \<not> materialize_allowed fc then Inl FeatureNotSupported
          else if \<not> result_is_composite fc then Inl FeatureNotSupported
          else stats_types K g tbl [0..<message_types_count] []
      | _ \<Rightarrow> Inl ObjectNotInPrerequisiteState)"

definition pg_log_errors_reset :: "constants \<Rightarrow> uint64 \<Rightarrow> state \<Rightarrow> error + state" where
  "pg_log_errors_reset K now s =
     (if messages_info_hashtable s = None \<or> global_variables s = None
      then Inl ObjectNotInPrerequisiteState
      else logerrors_init K now s)"

text \<open>
  \<^verbatim>\<open>pg_slow_log_stats\<close>: \<open>Inr None\<close> is the return without a result set, \<open>Inr (Some r)\<close>
  the one tuple of the slow-log counter and its reset time.
\<close>

definition pg_slow_log_stats :: "fcinfo \<Rightarrow> state \<Rightarrow> error + (int32 \<times> uint64) option" where
  "pg_slow_log_stats fc s =
     (case global_variables s of
        None \<Rightarrow> Inr None
      | Some g \<Rightarrow>
          if \<not> rsinfo_is_ReturnSetInfo fc then Inl FeatureNotSupported
          else if \<not> materialize_allowed fc then Inl FeatureNotSupported
          else if \<not> result_is_composite fc then Inl FeatureNotSupported
          else Inr (Some (count (slow_log_info g), reset_time (slow_log_info g))))"

subsection \<open>Sequences of calls\<close>

text \<open>
  The calls that change the shared state, one after the other: a pass of the worker's
  loop, a message through the hook, a call of \<^verbatim>\<open>pg_log_errors_reset\<close>.
\<close>

datatype call = Tick | Log backend ErrorData | Reset uint64

fun step :: "constants \<Rightarrow> call \<Rightarrow> state \<Rightarrow> error + state" where
  "step K Tick s = logerrors_update_info K s"
| "step K (Log proc edata) s = logerrors_emit_log_hook K proc edata s"
| "step K (Reset now) s = pg_log_errors_reset K now s"

fun run :: "constants \<Rightarrow> call list \<Rightarrow> state \<Rightarrow> error + state" where
  "run K [] s = Inr s"
| "run K (c # cs) s = (case step K c s of Inl e \<Rightarrow> Inl e | Inr s' \<Rightarrow> run K cs s')"

fun is_Reset :: "call \<Rightarrow> bool" where
  "is_Reset (Reset now) = True"
| "is_Reset c = False"

section \<open>Properties\<close>

subsection \<open>Well-formed states\<close>

text \<open>
  \<^verbatim>\<open>pgss_shmem_startup\<close> sets both pointers to \<^verbatim>\<open>NULL\<close>, then assigns the hash table,
  then the global structure: the hash table is never null while the global structure is
  not.
\<close>

definition pointer_order :: "state \<Rightarrow> bool" where
  "pointer_order s \<longleftrightarrow>
     (messages_info_hashtable s = None \<longrightarrow> global_variables s = None)"

text \<open>
  The bounds that \<^verbatim>\<open>logerrors_load_params\<close> declares for the two GUC variables.
\<close>

definition guc_ok :: "guc \<Rightarrow> bool" where
  "guc_ok cfg \<longleftrightarrow>
     1000 \<le>s guc_interval cfg \<and> guc_interval cfg \<le>s 60000 \<and>
     2 \<le>s guc_intervals_count cfg \<and> guc_intervals_count cfg \<le>s 360"

text \<open>
  The shape of the shared structures that the start-up hook leaves and every call keeps:
  arrays of their declared lengths, one entry per registered code, and the configuration
  and the index within the bounds of the ring.
\<close>

definition entry_ok :: "MessageInfo \<Rightarrow> bool" where
  "entry_ok e \<longleftrightarrow>
     length (message_count e) = message_types_count \<and>
     length (sum_in_buffer e) = message_types_count \<and>
     length (intervals e) = message_types_count \<and>
     (\<forall>j < message_types_count. length (intervals e ! j) = max_number_of_intervals)"

definition state_ok :: "constants \<Rightarrow> state \<Rightarrow> bool" where
  "state_ok K s \<longleftrightarrow>
     (\<exists>tbl g. messages_info_hashtable s = Some tbl \<and> global_variables s = Some g \<and>
        dom tbl = set (error_codes K) \<and>
        (\<forall>c e. tbl c = Some e \<longrightarrow> entry_ok e) \<and>
        length (total_count g) = message_types_count \<and>
        intervals_count g \<noteq> 0 \<and>
        unat (intervals_count g) \<le> max_number_of_intervals \<and>
        current_interval_index g < intervals_count g)"

text \<open>
  The invariant of the rolling sum, for one entry and for the whole table, and an entry
  whose counters are all zero.
\<close>

definition ring_ok :: "nat \<Rightarrow> MessageInfo \<Rightarrow> bool" where
  "ring_ok n e \<longleftrightarrow>
     (\<forall>j < message_types_count. sum_in_buffer e ! j = sum_list (take n (intervals e ! j)))"

definition ring_inv :: "state \<Rightarrow> bool" where
  "ring_inv s \<longleftrightarrow>
     (\<forall>tbl g c e. messages_info_hashtable s = Some tbl \<and> global_variables s = Some g \<and>
        tbl c = Some e \<longrightarrow> ring_ok (unat (intervals_count g)) e)"

definition all_zero :: "MessageInfo \<Rightarrow> bool" where
  "all_zero e \<longleftrightarrow>
     message_count e = replicate message_types_count 0 \<and>
     sum_in_buffer e = replicate message_types_count 0 \<and>
     intervals e = replicate message_types_count (replicate max_number_of_intervals 0)"

subsection \<open>What the hook changes\<close>

text \<open>
  The entry that a message of code \<open>c\<close> is counted in, the entry with one more message
  of type \<open>j\<close>, and the slow-log counter after a message.
\<close>

definition target_key :: "constants \<Rightarrow> HTAB \<Rightarrow> int \<Rightarrow> int" where
  "target_key K tbl c = (if tbl c = None then not_known_error_code K else c)"

definition bump :: "nat \<Rightarrow> MessageInfo \<Rightarrow> MessageInfo" where
  "bump j elem = elem\<lparr>message_count := (message_count elem)[j := message_count elem ! j + 1]\<rparr>"

definition count_slow :: "ErrorData \<Rightarrow> SlowLogInfo \<Rightarrow> SlowLogInfo" where
  "count_slow edata sl = (if is_slow edata then sl\<lparr>count := count sl + 1\<rparr> else sl)"

subsection \<open>The rows of the snapshot\<close>

text \<open>
  The rows of the snapshot as the specification lists them: for each message type the
  \<^verbatim>\<open>TOTAL\<close> row, then for each registered code, in the order of registration, the row
  of the long window when the rolling sum is positive and the row of the short window
  when the last completed interval is positive. The short window lasts
  \<^verbatim>\<open>interval / 1000\<close> seconds, the long window that many times \<^verbatim>\<open>intervals_count\<close>, and
  the last completed interval is the slot
  \<^verbatim>\<open>(current_interval_index - 1 + intervals_count) % intervals_count\<close>.
\<close>

definition prev_interval_index :: "GlobalInfo \<Rightarrow> nat" where
  "prev_interval_index g =
     unat ((current_interval_index g - 1 + intervals_count g) mod intervals_count g)"

definition short_interval :: "GlobalInfo \<Rightarrow> int32" where
  "short_interval g = c_div (interval g) 1000"

definition long_interval :: "GlobalInfo \<Rightarrow> int32" where
  "long_interval g = short_interval g * intervals_count g"

definition total_row :: "constants \<Rightarrow> GlobalInfo \<Rightarrow> nat \<Rightarrow> row" where
  "total_row K g lvl =
     \<lparr>row_time_interval = None, row_type = message_type_names K ! lvl,
      row_message = ''TOTAL'', row_count = total_count g ! lvl\<rparr>"

definition long_row :: "constants \<Rightarrow> GlobalInfo \<Rightarrow> nat \<Rightarrow> MessageInfo \<Rightarrow> row" where
  "long_row K g lvl info =
     \<lparr>row_time_interval = Some (long_interval g), row_type = message_type_names K ! lvl,
      row_message = name info, row_count = sum_in_buffer info ! lvl\<rparr>"

definition short_row :: "constants \<Rightarrow> GlobalInfo \<Rightarrow> nat \<Rightarrow> MessageInfo \<Rightarrow> row" where
  "short_row K g lvl info =
     \<lparr>row_time_interval = Some (short_interval g), row_type = message_type_names K ! lvl,
      row_message = name info, row_count = intervals info ! lvl ! prev_interval_index g\<rparr>"

definition category_rows :: "constants \<Rightarrow> GlobalInfo \<Rightarrow> HTAB \<Rightarrow> nat \<Rightarrow> int \<Rightarrow> row list" where
  "category_rows K g tbl lvl c =
     (case tbl c of
        None \<Rightarrow> []
      | Some info \<Rightarrow>
          (if 0 <s sum_in_buffer info ! lvl then [long_row K g lvl info] else []) @
          (if 0 <s intervals info ! lvl ! prev_interval_index g then [short_row K g lvl info]
           else []))"

definition snapshot_rows :: "constants \<Rightarrow> GlobalInfo \<Rightarrow> HTAB \<Rightarrow> row list" where
  "snapshot_rows K g tbl =
     concat (map (\<lambda>lvl. total_row K g lvl # concat (map (category_rows K g tbl lvl) (error_codes K)))
               [0..<message_types_count])"

subsection \<open>Runs and what is observed of them\<close>

text \<open>
  A run from the start-up of the postmaster on a fresh segment, its snapshot, and what
  is observed of a result: whether a row is in the snapshot, and the rolling sum, a slot
  of the ring and the index in the state.
\<close>

definition run_from :: "constants \<Rightarrow> guc \<Rightarrow> uint64 \<Rightarrow> call list \<Rightarrow> error + state" where
  "run_from K cfg now calls =
     (case pgss_shmem_startup K cfg False now fresh_shmem of
        Inl e \<Rightarrow> Inl e
      | Inr s \<Rightarrow> run K calls s)"

definition snapshot_after ::
  "constants \<Rightarrow> guc \<Rightarrow> uint64 \<Rightarrow> call list \<Rightarrow> fcinfo \<Rightarrow> error + row list" where
  "snapshot_after K cfg now calls fc =
     (case run_from K cfg now calls of
        Inl e \<Rightarrow> Inl e
      | Inr s \<Rightarrow> pg_log_errors_stats K fc s)"

definition emitted :: "error + row list \<Rightarrow> row \<Rightarrow> bool" where
  "emitted res r = (case res of Inl e \<Rightarrow> False | Inr rows \<Rightarrow> r \<in> set rows)"

definition rolling_sum :: "error + state \<Rightarrow> int \<Rightarrow> nat \<Rightarrow> int32 option" where
  "rolling_sum res c j =
     (case res of
        Inl e \<Rightarrow> None
      | Inr s \<Rightarrow>
          (case messages_info_hashtable s of
             None \<Rightarrow> None
           | Some tbl \<Rightarrow> map_option (\<lambda>info. sum_in_buffer info ! j) (tbl c)))"

definition ring_slot :: "error + state \<Rightarrow> int \<Rightarrow> nat \<Rightarrow> nat \<Rightarrow> uint32 option" where
  "ring_slot res c j i =
     (case res of
        Inl e \<Rightarrow> None
      | Inr s \<Rightarrow>
          (case messages_info_hashtable s of
             None \<Rightarrow> None
           | Some tbl \<Rightarrow> map_option (\<lambda>info. intervals info ! j ! i) (tbl c)))"

definition ring_index :: "error + state \<Rightarrow> uint32 option" where
  "ring_index res =
     (case res of
        Inl e \<Rightarrow> None
      | Inr s \<Rightarrow> map_option current_interval_index (global_variables s))"

text \<open>
  The counters of one entry and one message type, with the index and the total of the
  type, and what each call does to them when the entry is the one the call is about:
  the abstraction that the scenarios are computed on.
\<close>

record view =
  v_bucket :: uint32
  v_rolling :: int32
  v_ring :: "uint32 list"
  v_index :: uint32
  v_total :: uint32

definition view_zero :: view where
  "view_zero =
     \<lparr>v_bucket = 0, v_rolling = 0, v_ring = replicate max_number_of_intervals 0,
      v_index = 0, v_total = 0\<rparr>"

fun view_call :: "int32 \<Rightarrow> call \<Rightarrow> view \<Rightarrow> view" where
  "view_call n Tick v =
     \<lparr>v_bucket = 0,
      v_rolling = v_rolling v + v_bucket v - v_ring v ! unat (v_index v),
      v_ring = (v_ring v)[unat (v_index v) := v_bucket v],
      v_index = (v_index v + 1) mod n,
      v_total = v_total v\<rparr>"
| "view_call n (Log proc edata) v = v\<lparr>v_bucket := v_bucket v + 1, v_total := v_total v + 1\<rparr>"
| "view_call n (Reset now) v =
     \<lparr>v_bucket = 0, v_rolling = 0,
      v_ring = MemSet_u32 (v_ring v) max_number_of_intervals,
      v_index = 0, v_total = 0\<rparr>"

definition tracks ::
  "constants \<Rightarrow> state \<Rightarrow> int \<Rightarrow> nat \<Rightarrow> string \<Rightarrow> int32 \<Rightarrow> int32 \<Rightarrow> view \<Rightarrow> bool" where
  "tracks K s X j nm iv n v \<longleftrightarrow>
     state_ok K s \<and>
     (\<exists>tbl g e. messages_info_hashtable s = Some tbl \<and> global_variables s = Some g \<and>
        tbl X = Some e \<and> name e = nm \<and>
        message_count e ! j = v_bucket v \<and> sum_in_buffer e ! j = v_rolling v \<and>
        intervals e ! j = v_ring v \<and>
        current_interval_index g = v_index v \<and> total_count g ! j = v_total v \<and>
        interval g = iv \<and> intervals_count g = n)"

fun about :: "constants \<Rightarrow> int \<Rightarrow> nat \<Rightarrow> call \<Rightarrow> bool" where
  "about K X j Tick = True"
| "about K X j (Reset now) = True"
| "about K X j (Log proc edata) =
     (MyProc proc \<and> \<not> proc_exit_inprogress proc \<and>
      elevel edata = message_types_codes K ! j \<and> sqlerrcode edata = X)"

subsection \<open>Sample values\<close>

text \<open>
  A small instance of the tables: one registered code (the value of
  \<^verbatim>\<open>ERRCODE_SYNTAX_ERROR\<close>) and the fallback, with the levels of \<^verbatim>\<open>elog.h\<close>; a call
  context that accepts a tuple store, a backend that is not exiting, a message of level
  \<^verbatim>\<open>ERROR\<close>, the configuration of the scenarios and the default one.
\<close>

definition sample_constants :: constants where
  "sample_constants =
     \<lparr>error_table = [(16801924, ''ERRCODE_SYNTAX_ERROR''), (- 1, ''NOT_KNOWN_ERROR'')],
      message_types_codes = [19, 20, 21],
      message_type_names = [''WARNING'', ''ERROR'', ''FATAL''],
      not_known_error_code = - 1\<rparr>"

definition sample_fcinfo :: fcinfo where
  "sample_fcinfo =
     \<lparr>rsinfo_is_ReturnSetInfo = True, materialize_allowed = True, result_is_composite = True\<rparr>"

definition sample_backend :: backend where
  "sample_backend = \<lparr>MyProc = True, proc_exit_inprogress = False\<rparr>"

definition sample_error :: ErrorData where
  "sample_error = \<lparr>elevel = 20, sqlerrcode = 16801924, message = Some ''syntax error at or near \"selec\"''\<rparr>"

definition sample_guc :: guc where
  "sample_guc = \<lparr>guc_interval = 1000, guc_intervals_count = 3\<rparr>"

definition default_guc :: guc where
  "default_guc = \<lparr>guc_interval = 5000, guc_intervals_count = 120\<rparr>"

text \<open>
  Scenario A of the specification (two messages of one code and level, then one pass of
  the worker), and a sequence of calls that fills slot 119 of the ring before a reset.
\<close>

definition scenario_A :: "backend \<Rightarrow> ErrorData \<Rightarrow> call list" where
  "scenario_A proc edata = [Log proc edata, Log proc edata, Tick]"

definition stale_calls :: "backend \<Rightarrow> ErrorData \<Rightarrow> uint64 \<Rightarrow> call list" where
  "stale_calls proc edata now = replicate 119 Tick @ [Log proc edata, Tick, Reset now]"

section \<open>Proofs\<close>

subsection \<open>Calls before the shared structures exist\<close>

lemma pointer_order_not_loaded: "pointer_order not_loaded"
  by (simp add: pointer_order_def not_loaded_def)

lemma pointer_order_logerrors_init:
  "logerrors_init K now s = Inr s' \<Longrightarrow> pointer_order s'"
  by (auto simp: logerrors_init_def pointer_order_def split: option.splits)

lemma pointer_order_startup:
  "pgss_shmem_startup K cfg up now shm = Inr s \<Longrightarrow> pointer_order s"
  unfolding pgss_shmem_startup_def by (rule pointer_order_logerrors_init)

lemma pointer_order_step:
  "pointer_order s \<Longrightarrow> step K c s = Inr s' \<Longrightarrow> pointer_order s'"
  by (cases c)
    (auto simp: pointer_order_def logerrors_update_info_def logerrors_emit_log_hook_def
      pg_log_errors_reset_def logerrors_init_def
      split: option.splits sum.splits if_splits prod.splits)

text \<open>
  C5. While the shared structures are not initialised (a pointer is null, in the order
  in which the start-up hook assigns them), \<^verbatim>\<open>pg_log_errors_stats\<close> and
  \<^verbatim>\<open>pg_log_errors_reset\<close> fail with the error of the missing prerequisite, before
  any tuple is put and before any write; \<^verbatim>\<open>pg_slow_log_stats\<close> returns without a result
  set and without an error.
\<close>

theorem not_initialized_calls:
  assumes "messages_info_hashtable s = None \<or> global_variables s = None"
    and "pointer_order s"
  shows "pg_log_errors_stats K fc s = Inl ObjectNotInPrerequisiteState \<and>
         pg_log_errors_reset K now s = Inl ObjectNotInPrerequisiteState \<and>
         pg_slow_log_stats fc s = Inr None"
  using assms
  by (auto simp: pg_log_errors_stats_def pg_log_errors_reset_def pg_slow_log_stats_def
      pointer_order_def split: option.splits)

theorem not_initialized_calls_witness:
  "pg_log_errors_stats sample_constants sample_fcinfo not_loaded = Inl ObjectNotInPrerequisiteState \<and>
   pg_log_errors_reset sample_constants 7 not_loaded = Inl ObjectNotInPrerequisiteState \<and>
   pg_slow_log_stats sample_fcinfo not_loaded = Inr None"
  using not_initialized_calls [of not_loaded sample_constants sample_fcinfo 7]
  by (simp add: not_loaded_def pointer_order_def)

subsection \<open>The reset and the configuration\<close>

text \<open>
  C9. On initialised structures \<^verbatim>\<open>pg_log_errors_reset\<close> returns, sets
  \<^verbatim>\<open>current_interval_index\<close> to 0 and leaves \<^verbatim>\<open>interval\<close> and \<^verbatim>\<open>intervals_count\<close> of
  the global structure as they were.
\<close>

theorem reset_keeps_configuration:
  assumes "messages_info_hashtable s = Some tbl" and "global_variables s = Some g"
  shows "\<exists>s' g'. pg_log_errors_reset K now s = Inr s' \<and> global_variables s' = Some g' \<and>
           current_interval_index g' = 0 \<and> interval g' = interval g \<and>
           intervals_count g' = intervals_count g"
  using assms
  by (simp add: pg_log_errors_reset_def logerrors_init_def slow_log_info_init_def)

theorem reset_keeps_configuration_witness:
  "\<exists>s' g'. pg_log_errors_reset sample_constants 7
       \<lparr>messages_info_hashtable = Some Map.empty,
        global_variables =
          Some (zero_global\<lparr>interval := 5000, intervals_count := 120,
                             current_interval_index := 17\<rparr>)\<rparr> = Inr s' \<and>
     global_variables s' = Some g' \<and> current_interval_index g' = 0 \<and>
     interval g' = 5000 \<and> intervals_count g' = 120"
  using reset_keeps_configuration
    [of "\<lparr>messages_info_hashtable = Some Map.empty,
         global_variables =
           Some (zero_global\<lparr>interval := 5000, intervals_count := 120,
                              current_interval_index := 17\<rparr>)\<rparr>"
        Map.empty
        "zero_global\<lparr>interval := 5000, intervals_count := 120, current_interval_index := 17\<rparr>"
        sample_constants 7]
  by simp

subsection \<open>The pass of the worker\<close>

lemma sum_list_take_update:
  fixes xs :: "'a::ab_group_add list"
  shows "i < n \<Longrightarrow> i < length xs \<Longrightarrow>
     sum_list (take n (xs[i := v])) = sum_list (take n xs) - xs ! i + v"
proof (induction xs arbitrary: i n)
  case Nil then show ?case by simp
next
  case (Cons x xs)
  then show ?case
    by (cases n; cases i) (auto simp: algebra_simps)
qed

lemma entry_ok_rotate: "entry_ok e \<Longrightarrow> entry_ok (rotate_entry j idx e)"
proof (cases "j < message_types_count")
  case True
  assume "entry_ok e"
  with True show ?thesis
    by (simp add: entry_ok_def rotate_entry_def Let_def nth_list_update)
next
  case False
  assume "entry_ok e"
  with False show ?thesis
    by (simp add: entry_ok_def rotate_entry_def Let_def list_update_beyond)
qed

lemma ring_ok_rotate:
  assumes "entry_ok e" and "ring_ok n e" and "idx < n" and "n \<le> max_number_of_intervals"
  shows "ring_ok n (rotate_entry j idx e)"
proof (cases "j < message_types_count")
  case True
  with assms show ?thesis
    by (simp add: entry_ok_def ring_ok_def rotate_entry_def Let_def nth_list_update
        sum_list_take_update)
next
  case False
  with assms show ?thesis
    by (simp add: entry_ok_def ring_ok_def rotate_entry_def Let_def list_update_beyond)
qed

lemma update_codes_Inr:
  "set cs \<subseteq> dom tbl \<Longrightarrow> idx < max_number_of_intervals \<Longrightarrow>
   \<exists>tbl'. update_codes j idx cs tbl = Inr tbl' \<and> dom tbl' = dom tbl"
proof (induction cs arbitrary: tbl)
  case Nil
  then show ?case by simp
next
  case (Cons c cs)
  from Cons.prems obtain info where info: "tbl c = Some info" by auto
  let ?t = "tbl(c \<mapsto> rotate_entry j idx info)"
  have dom: "dom ?t = dom tbl"
    using info by (simp add: insert_absorb domI)
  with Cons.prems have "set cs \<subseteq> dom ?t" by simp
  from Cons.IH [OF this Cons.prems(2)] obtain tbl' where
    "update_codes j idx cs ?t = Inr tbl'" "dom tbl' = dom ?t" by blast
  with dom info Cons.prems(2) show ?case by simp
qed

lemma update_codes_pres:
  assumes step: "\<And>e. P e \<Longrightarrow> P (rotate_entry j idx e)"
  shows "update_codes j idx cs tbl = Inr tbl' \<Longrightarrow> (\<And>c e. tbl c = Some e \<Longrightarrow> P e) \<Longrightarrow>
         tbl' c = Some e \<Longrightarrow> P e"
proof (induction cs arbitrary: tbl)
  case Nil
  then show ?case by simp
next
  case (Cons a cs)
  from Cons.prems(1) obtain info where info: "tbl a = Some info"
    and rest: "update_codes j idx cs (tbl(a \<mapsto> rotate_entry j idx info)) = Inr tbl'"
    by (auto split: option.splits if_splits)
  show ?case
  proof (rule Cons.IH [OF rest _ Cons.prems(3)])
    fix c' e'
    assume "(tbl(a \<mapsto> rotate_entry j idx info)) c' = Some e'"
    then show "P e'"
      using info Cons.prems(2) step by (auto split: if_splits)
  qed
qed

lemma update_codes_effect:
  "distinct cs \<Longrightarrow> update_codes j idx cs tbl = Inr tbl' \<Longrightarrow>
   tbl' c = (if c \<in> set cs then map_option (rotate_entry j idx) (tbl c) else tbl c)"
proof (induction cs arbitrary: tbl)
  case Nil
  then show ?case by simp
next
  case (Cons a cs)
  from Cons.prems(2) obtain info where info: "tbl a = Some info"
    and rest: "update_codes j idx cs (tbl(a \<mapsto> rotate_entry j idx info)) = Inr tbl'"
    by (auto split: option.splits if_splits)
  from Cons.prems(1) have "distinct cs" and a: "a \<notin> set cs" by simp_all
  from Cons.IH [OF \<open>distinct cs\<close> rest] a info show ?case
    by auto
qed

lemma update_types_Inr:
  "set cs \<subseteq> dom tbl \<Longrightarrow> idx < max_number_of_intervals \<Longrightarrow>
   \<exists>tbl'. update_types js idx cs tbl = Inr tbl' \<and> dom tbl' = dom tbl"
proof (induction js arbitrary: tbl)
  case Nil
  then show ?case by simp
next
  case (Cons j js)
  from update_codes_Inr [OF Cons.prems, of j] obtain t where
    t: "update_codes j idx cs tbl = Inr t" "dom t = dom tbl" by blast
  with Cons.IH [of t] Cons.prems show ?case by auto
qed

lemma update_types_pres:
  assumes step: "\<And>j e. P e \<Longrightarrow> P (rotate_entry j idx e)"
  shows "update_types js idx cs tbl = Inr tbl' \<Longrightarrow> (\<And>c e. tbl c = Some e \<Longrightarrow> P e) \<Longrightarrow>
         tbl' c = Some e \<Longrightarrow> P e"
proof (induction js arbitrary: tbl)
  case Nil
  then show ?case by simp
next
  case (Cons j js)
  from Cons.prems(1) obtain t where t: "update_codes j idx cs tbl = Inr t"
    and rest: "update_types js idx cs t = Inr tbl'"
    by (auto split: sum.splits)
  show ?case
  proof (rule Cons.IH [OF rest _ Cons.prems(3)])
    fix c' e'
    assume "t c' = Some e'"
    from update_codes_pres [of P j idx cs tbl t c' e', OF step t _ this] Cons.prems(2)
    show "P e'" by blast
  qed
qed

lemma update_types_effect:
  "distinct cs \<Longrightarrow> update_types js idx cs tbl = Inr tbl' \<Longrightarrow>
   tbl' c = (if c \<in> set cs then map_option (fold (\<lambda>j. rotate_entry j idx) js) (tbl c)
             else tbl c)"
proof (induction js arbitrary: tbl)
  case Nil
  then show ?case by (simp add: option.map_ident)
next
  case (Cons j js)
  from Cons.prems(2) obtain t where t: "update_codes j idx cs tbl = Inr t"
    and rest: "update_types js idx cs t = Inr tbl'"
    by (auto split: sum.splits)
  from Cons.IH [OF Cons.prems(1) rest] update_codes_effect [OF Cons.prems(1) t, of c]
  show ?case by (auto simp: option.map_comp comp_def)
qed

lemma tick_ok:
  assumes "state_ok K s"
  shows "\<exists>s'. logerrors_update_info K s = Inr s' \<and> state_ok K s'"
proof -
  from assms obtain tbl g where s: "messages_info_hashtable s = Some tbl"
    "global_variables s = Some g" and dom: "dom tbl = set (error_codes K)"
    and ent: "\<And>c e. tbl c = Some e \<Longrightarrow> entry_ok e"
    and tc: "length (total_count g) = message_types_count"
    and n: "intervals_count g \<noteq> 0" "unat (intervals_count g) \<le> max_number_of_intervals"
    and idx: "current_interval_index g < intervals_count g"
    unfolding state_ok_def by blast
  from idx n have idx': "unat (current_interval_index g) < max_number_of_intervals"
    by (simp add: word_less_nat_alt)
  from update_types_Inr [of "error_codes K" tbl, OF _ idx'] dom
  obtain tbl' where t: "update_types [0..<message_types_count]
      (unat (current_interval_index g)) (error_codes K) tbl = Inr tbl'" "dom tbl' = dom tbl"
    by blast
  have ent': "entry_ok e" if "tbl' c = Some e" for c e
    using update_types_pres [of entry_ok, OF entry_ok_rotate t(1) ent that] .
  have "(current_interval_index g + 1) mod intervals_count g < intervals_count g"
    using n(1) by (simp add: word_mod_less_divisor word_neq_0_conv)
  with s t dom ent' tc n show ?thesis
    by (auto simp: logerrors_update_info_def state_ok_def)
qed

lemma tick_ring:
  assumes "state_ok K s" and "ring_inv s" and "logerrors_update_info K s = Inr s'"
  shows "ring_inv s'"
proof -
  from assms(1) obtain tbl g where s: "messages_info_hashtable s = Some tbl"
    "global_variables s = Some g" 
    and ent: "\<And>c e. tbl c = Some e \<Longrightarrow> entry_ok e"
    and n: "intervals_count g \<noteq> 0" "unat (intervals_count g) \<le> max_number_of_intervals"
    and idx: "current_interval_index g < intervals_count g"
    unfolding state_ok_def by blast
  let ?n = "unat (intervals_count g)"
  let ?i = "unat (current_interval_index g)"
  from idx have idx': "?i < ?n" by (simp add: word_less_nat_alt)
  from assms(3) s n obtain tbl' where
    t: "update_types [0..<message_types_count] ?i (error_codes K) tbl = Inr tbl'"
    and s': "s' = \<lparr>messages_info_hashtable = Some tbl',
                      global_variables =
                           Some (g\<lparr>current_interval_index :=
                                     (current_interval_index g + 1) mod intervals_count g\<rparr>)\<rparr>"
    by (auto simp: logerrors_update_info_def split: sum.splits)
  let ?P = "\<lambda>e. entry_ok e \<and> ring_ok ?n e"
  have P: "?P e" if "tbl c = Some e" for c e
    using that ent assms(2) s by (auto simp: ring_inv_def)
  have "?P e" if "tbl' c = Some e" for c e
  proof (rule update_types_pres [of ?P, OF _ t _ that])
    show "?P (rotate_entry j ?i e)" if "?P e" for j e
      using that entry_ok_rotate ring_ok_rotate [OF _ _ idx' n(2)] by blast
    show "?P e" if "tbl c = Some e" for c e using that P by blast
  qed
  then show ?thesis
    by (auto simp: ring_inv_def s')
qed

subsection \<open>The loop of the hook\<close>

lemma count_message_skip:
  "\<forall>j \<in> set js. elevel edata \<noteq> message_types_codes K ! j \<Longrightarrow>
   count_message K edata js (tbl, tc) = Inr (tbl, tc)"
  by (induction js) auto

lemma count_message_hit:
  assumes "j \<in> set js" and "distinct js"
    and "elevel edata = message_types_codes K ! j"
    and "\<forall>i \<in> set js. i \<noteq> j \<longrightarrow> elevel edata \<noteq> message_types_codes K ! i"
    and "tbl (target_key K tbl (sqlerrcode edata)) = Some elem"
  shows "count_message K edata js (tbl, tc) =
           Inr (tbl(target_key K tbl (sqlerrcode edata) \<mapsto> bump j elem), tc[j := tc ! j + 1])"
  using assms
proof (induction js)
  case Nil
  then show ?case by simp
next
  case (Cons i js)
  show ?case
  proof (cases "i = j")
    case True
    with Cons.prems have "\<forall>i \<in> set js. elevel edata \<noteq> message_types_codes K ! i"
      by auto
    from count_message_skip [OF this] True Cons.prems(3,5) show ?thesis
      by (auto simp: target_key_def bump_def split: option.splits if_splits)
  next
    case False
    with Cons.prems have "elevel edata \<noteq> message_types_codes K ! i" by auto
    moreover from False Cons.prems have "j \<in> set js" "distinct js"
      "\<forall>i \<in> set js. i \<noteq> j \<longrightarrow> elevel edata \<noteq> message_types_codes K ! i" by auto
    ultimately show ?thesis using Cons.IH Cons.prems(3,5) by simp
  qed
qed

subsection \<open>Signed and unsigned readings of the counters\<close>

lemma sint_nonneg_uint:
  fixes w :: "32 word"
  assumes "0 \<le> sint w"
  shows "uint w = sint w"
proof -
  have "sint w < 2 ^ 32"
    using sint_lt [of w] by simp
  with assms have "take_bit 32 (sint w) = sint w"
    by (simp add: take_bit_int_eq_self)
  then show ?thesis
    using uint_sint [of w] by simp
qed

lemma guc_ok_count:
  assumes "guc_ok cfg"
  shows "guc_intervals_count cfg \<noteq> 0 \<and> unat (guc_intervals_count cfg) \<le> max_number_of_intervals"
proof -
  from assms have r: "2 \<le> sint (guc_intervals_count cfg)" "sint (guc_intervals_count cfg) \<le> 360"
    by (simp_all add: guc_ok_def word_sle_eq)
  then have "uint (guc_intervals_count cfg) = sint (guc_intervals_count cfg)"
    by (simp add: sint_nonneg_uint)
  with r have "2 \<le> uint (guc_intervals_count cfg)" "uint (guc_intervals_count cfg) \<le> 360"
    by simp_all
  then have "2 \<le> unat (guc_intervals_count cfg)" "unat (guc_intervals_count cfg) \<le> 360"
    unfolding uint_nat by linarith+
  moreover have "unat (guc_intervals_count cfg) = 0" if "guc_intervals_count cfg = 0"
    using that by simp
  ultimately show ?thesis
    unfolding max_number_of_intervals_def by fastforce
qed

lemma sint_word_of_nat:
  assumes "n < 2 ^ 31"
  shows "sint (word_of_nat n :: 32 word) = int n"
proof -
  have "sint (word_of_nat n :: 32 word) = signed_take_bit 31 (int n)"
    by (simp add: signed_of_nat)
  also have "\<dots> = int n"
    using assms by (simp add: signed_take_bit_int_eq_self)
  finally show ?thesis .
qed

lemma word_of_nat_sum_unat:
  fixes xs :: "'a::len word list"
  shows "word_of_nat (sum_list (map unat xs)) = sum_list xs"
  by (induction xs) auto

lemma sint_sum_list:
  fixes xs :: "32 word list"
  assumes "sum_list (map unat xs) < 2 ^ 31"
  shows "sint (sum_list xs) = int (sum_list (map unat xs))"
  using sint_word_of_nat [OF assms] by (simp add: word_of_nat_sum_unat)

subsection \<open>What MemSet clears\<close>

lemma length_MemSet_u32 [simp]: "length (MemSet_u32 xs len) = length xs"
  by (simp add: MemSet_u32_def)

lemma nth_MemSet_u32:
  "i < length xs \<Longrightarrow>
   MemSet_u32 xs len ! i =
     (if 4 * (i + 1) \<le> len then 0
      else if 4 * i < len then push_bit (8 * (len - 4 * i)) (drop_bit (8 * (len - 4 * i)) (xs ! i))
      else xs ! i)"
  by (simp add: MemSet_u32_def nth_enumerate_eq)

lemma MemSet_u32_zero: "MemSet_u32 (replicate n 0) len = replicate n 0"
  by (rule nth_equalityI) (simp_all add: nth_MemSet_u32)

subsection \<open>The hook\<close>

lemma type_codes_distinct:
  assumes "constants_ok K" and "j < message_types_count"
  shows "\<forall>i \<in> set [0..<message_types_count]. i \<noteq> j \<longrightarrow>
           message_types_codes K ! j \<noteq> message_types_codes K ! i"
  using assms by (auto simp: constants_ok_def nth_eq_iff_index_eq)

lemma target_in_table:
  assumes "constants_ok K" and "dom tbl = set (error_codes K)"
  shows "\<exists>elem. tbl (target_key K tbl c) = Some elem"
  using assms by (auto simp: target_key_def constants_ok_def)

lemma hook_tracked:
  assumes K: "constants_ok K" and dom: "dom tbl = set (error_codes K)"
    and s: "messages_info_hashtable s = Some tbl" "global_variables s = Some g"
    and proc: "MyProc proc" "\<not> proc_exit_inprogress proc"
    and j: "j < message_types_count" "elevel edata = message_types_codes K ! j"
    and elem: "tbl (target_key K tbl (sqlerrcode edata)) = Some elem"
  shows "logerrors_emit_log_hook K proc edata s =
           Inr \<lparr>messages_info_hashtable =
                  Some (tbl(target_key K tbl (sqlerrcode edata) \<mapsto> bump j elem)),
                global_variables =
                  Some (g\<lparr>total_count := (total_count g)[j := total_count g ! j + 1],
                          slow_log_info := count_slow edata (slow_log_info g)\<rparr>)\<rparr>"
proof -
  have "count_message K edata [0..<message_types_count] (tbl, total_count g) =
          Inr (tbl(target_key K tbl (sqlerrcode edata) \<mapsto> bump j elem),
               (total_count g)[j := total_count g ! j + 1])"
  proof (rule count_message_hit)
    show "j \<in> set [0..<message_types_count]" using j(1) by simp
    show "distinct [0..<message_types_count]" by simp
    show "elevel edata = message_types_codes K ! j" by (rule j(2))
    show "\<forall>i\<in>set [0..<message_types_count].
            i \<noteq> j \<longrightarrow> elevel edata \<noteq> message_types_codes K ! i"
      using type_codes_distinct [OF K j(1)] j(2) by simp
    show "tbl (target_key K tbl (sqlerrcode edata)) = Some elem" by (rule elem)
  qed
  with s proc show ?thesis
    by (simp add: logerrors_emit_log_hook_def count_slow_def)
qed

lemma hook_untracked:
  assumes s: "messages_info_hashtable s = Some tbl" "global_variables s = Some g"
    and proc: "MyProc proc" "\<not> proc_exit_inprogress proc"
    and len: "length (message_types_codes K) = message_types_count"
    and lvl: "elevel edata \<notin> set (message_types_codes K)"
  shows "logerrors_emit_log_hook K proc edata s =
           Inr \<lparr>messages_info_hashtable = Some tbl,
                global_variables =
                  Some (g\<lparr>slow_log_info := count_slow edata (slow_log_info g)\<rparr>)\<rparr>"
proof -
  have "\<forall>j \<in> set [0..<message_types_count]. elevel edata \<noteq> message_types_codes K ! j"
    using len lvl by (metis atLeastLessThan_iff nth_mem set_upt)
  from count_message_skip [OF this] s proc show ?thesis
    by (simp add: logerrors_emit_log_hook_def count_slow_def)
qed

lemma entry_ok_bump: "entry_ok e \<Longrightarrow> entry_ok (bump j e)"
  by (simp add: entry_ok_def bump_def)

lemma ring_ok_bump: "ring_ok n (bump j e) = ring_ok n e"
  by (simp add: ring_ok_def bump_def)

lemma hook_cases:
  assumes K: "constants_ok K" and dom: "dom tbl = set (error_codes K)"
    and s: "messages_info_hashtable s = Some tbl" "global_variables s = Some g"
  obtains
    (idle) "logerrors_emit_log_hook K proc edata s = Inr s"
  | (untracked) "logerrors_emit_log_hook K proc edata s =
           Inr \<lparr>messages_info_hashtable = Some tbl,
                global_variables =
                  Some (g\<lparr>slow_log_info := count_slow edata (slow_log_info g)\<rparr>)\<rparr>"
  | (tracked) j k elem where "j < message_types_count" "tbl k = Some elem"
      "logerrors_emit_log_hook K proc edata s =
           Inr \<lparr>messages_info_hashtable = Some (tbl(k \<mapsto> bump j elem)),
                global_variables =
                  Some (g\<lparr>total_count := (total_count g)[j := total_count g ! j + 1],
                          slow_log_info := count_slow edata (slow_log_info g)\<rparr>)\<rparr>"
proof (cases "MyProc proc \<and> \<not> proc_exit_inprogress proc")
  case False
  with s have "logerrors_emit_log_hook K proc edata s = Inr s"
    by (auto simp: logerrors_emit_log_hook_def)
  then show ?thesis by (rule idle)
next
  case True
  show ?thesis
  proof (cases "elevel edata \<in> set (message_types_codes K)")
    case False
    from K have "length (message_types_codes K) = message_types_count"
      by (simp add: constants_ok_def)
    from hook_untracked [OF s _ _ this False] True show ?thesis
      by (intro untracked) simp
  next
    case lvl: True
    with K obtain j where j: "j < message_types_count" "elevel edata = message_types_codes K ! j"
      by (auto simp: constants_ok_def in_set_conv_nth)
    from target_in_table [OF K dom] obtain elem where
      elem: "tbl (target_key K tbl (sqlerrcode edata)) = Some elem" by blast
    from hook_tracked [OF K dom s _ _ j elem] True show ?thesis
      by (intro tracked [OF j(1) elem]) simp
  qed
qed

lemma hook_ok:
  assumes "constants_ok K" and "state_ok K s"
  shows "\<exists>s'. logerrors_emit_log_hook K proc edata s = Inr s' \<and> state_ok K s'"
proof -
  from assms(2) obtain tbl g where s: "messages_info_hashtable s = Some tbl"
    "global_variables s = Some g" and dom: "dom tbl = set (error_codes K)"
    and ent: "\<And>c e. tbl c = Some e \<Longrightarrow> entry_ok e"
    and g: "length (total_count g) = message_types_count"
      "intervals_count g \<noteq> 0" "unat (intervals_count g) \<le> max_number_of_intervals"
      "current_interval_index g < intervals_count g"
    unfolding state_ok_def by blast
  from assms(1) dom s show ?thesis
  proof (cases rule: hook_cases [where proc = proc and edata = edata])
    case idle
    with assms(2) show ?thesis by simp
  next
    case untracked
    with dom ent g show ?thesis by (simp add: state_ok_def)
  next
    case (tracked j k elem)
    from tracked(2) dom have "dom (tbl(k \<mapsto> bump j elem)) = set (error_codes K)"
      by (auto simp: insert_absorb domI)
    moreover have "entry_ok e" if "(tbl(k \<mapsto> bump j elem)) c = Some e" for c e
      using that ent tracked(2) entry_ok_bump by (auto split: if_splits)
    ultimately show ?thesis
      using tracked(3) g by (simp add: state_ok_def)
  qed
qed

lemma hook_ring:
  assumes "constants_ok K" and "state_ok K s" and "ring_inv s"
    and "logerrors_emit_log_hook K proc edata s = Inr s'"
  shows "ring_inv s'"
proof -
  from assms(2) obtain tbl g where s: "messages_info_hashtable s = Some tbl"
    "global_variables s = Some g" and dom: "dom tbl = set (error_codes K)"
    unfolding state_ok_def by blast
  from assms(3) s have ring: "\<And>c e. tbl c = Some e \<Longrightarrow> ring_ok (unat (intervals_count g)) e"
    by (simp add: ring_inv_def)
  from assms(1) dom s show ?thesis
  proof (cases rule: hook_cases [where proc = proc and edata = edata])
    case idle
    with assms(3,4) show ?thesis by simp
  next
    case untracked
    with assms(4) ring show ?thesis by (auto simp: ring_inv_def)
  next
    case (tracked j k elem)
    have "ring_ok (unat (intervals_count g)) e" if "(tbl(k \<mapsto> bump j elem)) c = Some e" for c e
      using that ring tracked(2) by (auto simp: ring_ok_bump split: if_splits)
    with tracked(3) assms(4) show ?thesis by (auto simp: ring_inv_def)
  qed
qed

subsection \<open>Initialisation and reset\<close>

lemma fold_pres:
  assumes "\<And>j x. P x \<Longrightarrow> P (f j x)" and "P x"
  shows "P (fold f js x)"
  using assms(2) by (induction js arbitrary: x) (auto intro: assms(1))

lemma replicate_update_same: "(replicate n x)[i := x] = replicate n x"
  by (induction n arbitrary: i) (auto split: nat.splits)

lemma entry_ok_init_type: "entry_ok e \<Longrightarrow> entry_ok (init_type nm j e)"
proof (cases "j < message_types_count")
  case True
  assume "entry_ok e"
  with True show ?thesis
    by (simp add: entry_ok_def init_type_def nth_list_update)
next
  case False
  assume "entry_ok e"
  with False show ?thesis
    by (simp add: entry_ok_def init_type_def list_update_beyond)
qed

lemma all_zero_init_type: "all_zero e \<Longrightarrow> all_zero (init_type nm j e)"
proof (cases "j < message_types_count")
  case True
  assume "all_zero e"
  with True show ?thesis
    by (simp add: all_zero_def init_type_def MemSet_u32_zero replicate_update_same)
next
  case False
  assume "all_zero e"
  with False show ?thesis
    by (simp add: all_zero_def init_type_def list_update_beyond)
qed

lemma entry_ok_init_elem: "entry_ok e \<Longrightarrow> entry_ok (init_elem nm e)"
  unfolding init_elem_def by (rule fold_pres) (auto intro: entry_ok_init_type)

lemma all_zero_init_elem: "all_zero e \<Longrightarrow> all_zero (init_elem nm e)"
  unfolding init_elem_def by (rule fold_pres) (auto intro: all_zero_init_type)

lemma all_zero_zero_entry: "all_zero (zero_entry k)"
  by (simp add: all_zero_def zero_entry_def message_types_count_def
      max_number_of_intervals_def)

lemma all_zero_entry_ok: "all_zero e \<Longrightarrow> entry_ok e"
  by (simp add: all_zero_def entry_ok_def)

lemma all_zero_ring_ok: "all_zero e \<Longrightarrow> ring_ok n e"
  by (simp add: all_zero_def ring_ok_def sum_list_replicate)

lemma init_entries_dom: "dom (init_entries tb tbl) = dom tbl \<union> fst ` set tb"
proof (induction tb arbitrary: tbl)
  case Nil
  then show ?case by simp
next
  case (Cons a tb)
  obtain c nm where a: "a = (c, nm)" by (cases a)
  have "dom (init_entries (a # tb) tbl) =
          dom (tbl(c \<mapsto> init_elem nm (hash_enter tbl c))) \<union> fst ` set tb"
    unfolding a init_entries.simps by (rule Cons.IH)
  also have "\<dots> = dom tbl \<union> fst ` set (a # tb)"
    unfolding a by auto
  finally show ?case .
qed

lemma init_entries_pres:
  assumes zero: "\<And>k. P (zero_entry k)" and step: "\<And>nm e. P e \<Longrightarrow> P (init_elem nm e)"
  shows "(\<And>c e. tbl c = Some e \<Longrightarrow> P e) \<Longrightarrow> init_entries tb tbl c = Some e \<Longrightarrow> P e"
proof (induction tb tbl rule: init_entries.induct)
  case (1 tbl)
  then show ?case by simp
next
  case (2 a nm rest tbl)
  have "P (hash_enter tbl a)"
    using zero "2.prems"(1) by (auto simp: hash_enter_def split: option.splits)
  then have "P (init_elem nm (hash_enter tbl a))" by (rule step)
  with "2.prems"(1) have *: "P e'"
    if "(tbl(a \<mapsto> init_elem nm (hash_enter tbl a))) c' = Some e'" for c' e'
    using that by (auto split: if_splits)
  show ?case
  proof (rule "2.IH")
    show "P e'" if "(tbl(a \<mapsto> init_elem nm (hash_enter tbl a))) c' = Some e'" for c' e'
      using that by (rule *)
    show "init_entries rest (tbl(a \<mapsto> init_elem nm (hash_enter tbl a))) c = Some e"
      using "2.prems"(2) by simp
  qed
qed

lemma length_init_total_count: "length (init_total_count tc) = length tc"
  unfolding init_total_count_def
  by (rule fold_pres [where P = "\<lambda>xs. length xs = length tc"]) simp_all

lemma startup_ok:
  assumes "guc_ok cfg" and "pgss_shmem_startup K cfg False now fresh_shmem = Inr s"
  shows "state_ok K s \<and> ring_inv s"
proof -
  let ?tbl = "init_entries (error_table K) Map.empty"
  let ?g = "slow_log_info_init now
              ((global_variables_init cfg zero_global)
                 \<lparr>current_interval_index := 0,
                  total_count := init_total_count (total_count (global_variables_init cfg zero_global))\<rparr>)"
  from assms(2) have s: "s = \<lparr>messages_info_hashtable = Some ?tbl, global_variables = Some ?g\<rparr>"
    by (simp add: pgss_shmem_startup_def logerrors_init_def fresh_shmem_def)
  have zero: "all_zero e" if "?tbl c = Some e" for c e
    by (rule init_entries_pres [of all_zero, OF all_zero_zero_entry all_zero_init_elem _ that])
      simp_all
  have dom: "dom ?tbl = set (error_codes K)"
    by (simp add: init_entries_dom error_codes_def)
  from guc_ok_count [OF assms(1)]
  have n: "intervals_count ?g \<noteq> 0" "unat (intervals_count ?g) \<le> max_number_of_intervals"
    by (simp_all add: slow_log_info_init_def global_variables_init_def)
  then have idx: "current_interval_index ?g < intervals_count ?g"
    by (simp add: slow_log_info_init_def word_neq_0_conv)
  have len: "length (total_count ?g) = message_types_count"
    by (simp add: slow_log_info_init_def length_init_total_count global_variables_init_def
        zero_global_def message_types_count_def)
  show ?thesis
    unfolding state_ok_def ring_inv_def s 
    using zero dom n idx len by (auto intro: all_zero_entry_ok all_zero_ring_ok)
qed

lemma startup_Inr: "\<exists>s. pgss_shmem_startup K cfg up now shm = Inr s"
  by (simp add: pgss_shmem_startup_def logerrors_init_def)

lemma reset_ok:
  assumes "state_ok K s"
  shows "\<exists>s'. pg_log_errors_reset K now s = Inr s' \<and> state_ok K s'"
proof -
  from assms obtain tbl g where s: "messages_info_hashtable s = Some tbl"
    "global_variables s = Some g" and dom: "dom tbl = set (error_codes K)"
    and ent: "\<And>c e. tbl c = Some e \<Longrightarrow> entry_ok e"
    and g: "length (total_count g) = message_types_count"
      "intervals_count g \<noteq> 0" "unat (intervals_count g) \<le> max_number_of_intervals"
    unfolding state_ok_def by blast
  have "entry_ok e" if "init_entries (error_table K) tbl c = Some e" for c e
    by (rule init_entries_pres [of entry_ok, OF _ entry_ok_init_elem ent that])
      (simp_all add: all_zero_entry_ok all_zero_zero_entry)
  moreover have "dom (init_entries (error_table K) tbl) = set (error_codes K)"
    using dom by (auto simp: init_entries_dom error_codes_def)
  ultimately show ?thesis
    using s g
    by (simp add: pg_log_errors_reset_def logerrors_init_def state_ok_def
        slow_log_info_init_def length_init_total_count word_neq_0_conv)
qed

subsection \<open>Sequences of calls\<close>

lemma step_ok:
  assumes "constants_ok K" and "state_ok K s"
  shows "\<exists>s'. step K c s = Inr s' \<and> state_ok K s'"
  using assms by (cases c) (simp_all add: tick_ok hook_ok reset_ok)

lemma run_ok:
  assumes "constants_ok K" and "state_ok K s"
  shows "\<exists>s'. run K cs s = Inr s' \<and> state_ok K s'"
  using assms(2)
proof (induction cs arbitrary: s)
  case Nil
  then show ?case by simp
next
  case (Cons c cs)
  from step_ok [OF assms(1) Cons.prems, of c] obtain s1 where
    "step K c s = Inr s1" "state_ok K s1" by blast
  with Cons.IH [of s1] show ?case by simp
qed

lemma step_ring:
  assumes "constants_ok K" and "state_ok K s" and "ring_inv s" and "\<not> is_Reset c"
    and "step K c s = Inr s'"
  shows "ring_inv s'"
  using assms by (cases c) (auto intro: tick_ring hook_ring)

lemma run_ring:
  assumes "constants_ok K" and "\<forall>c \<in> set cs. \<not> is_Reset c"
  shows "state_ok K s \<Longrightarrow> ring_inv s \<Longrightarrow> run K cs s = Inr s' \<Longrightarrow> ring_inv s'"
  using assms(2)
proof (induction cs arbitrary: s)
  case Nil
  then show ?case by simp
next
  case (Cons c cs)
  from step_ok [OF assms(1) Cons.prems(1), of c] obtain s1 where
    s1: "step K c s = Inr s1" "state_ok K s1" by blast
  from step_ring [OF assms(1) Cons.prems(1,2) _ s1(1)] Cons.prems(4)
  have "ring_inv s1" by simp
  from Cons.IH [OF s1(2) this] Cons.prems(3,4) s1(1) show ?case by simp
qed

lemma step_configuration:
  assumes "step K c s = Inr s'" and "global_variables s = Some g"
  shows "\<exists>g'. global_variables s' = Some g' \<and> interval g' = interval g \<and>
           intervals_count g' = intervals_count g"
  using assms
  by (cases c)
    (auto simp: logerrors_update_info_def logerrors_emit_log_hook_def
      pg_log_errors_reset_def logerrors_init_def slow_log_info_init_def
      split: option.splits sum.splits if_splits prod.splits)

lemma run_configuration:
  "run K cs s = Inr s' \<Longrightarrow> global_variables s = Some g \<Longrightarrow>
   \<exists>g'. global_variables s' = Some g' \<and> interval g' = interval g \<and>
           intervals_count g' = intervals_count g"
proof (induction cs arbitrary: s g)
  case Nil
  then show ?case by simp
next
  case (Cons c cs)
  from Cons.prems(1) obtain s1 where s1: "step K c s = Inr s1" "run K cs s1 = Inr s'"
    by (auto split: sum.splits)
  from step_configuration [OF s1(1) Cons.prems(2)] obtain g1 where
    "global_variables s1 = Some g1" "interval g1 = interval g"
    "intervals_count g1 = intervals_count g" by blast
  with Cons.IH [OF s1(2), of g1] show ?case by simp
qed

lemma startup_configuration:
  assumes "pgss_shmem_startup K cfg False now fresh_shmem = Inr s"
  shows "\<exists>g. global_variables s = Some g \<and> interval g = guc_interval cfg \<and>
           intervals_count g = guc_intervals_count cfg"
  using assms
  by (auto simp: pgss_shmem_startup_def logerrors_init_def slow_log_info_init_def
      global_variables_init_def fresh_shmem_def)

subsection \<open>The rolling sum\<close>

text \<open>
  C1. From the state that the start-up hook leaves on a fresh segment, after any sequence
  of passes of the worker and of logged messages without a reset, every entry and every
  message type has \<^verbatim>\<open>sum_in_buffer[j]\<close> equal to the sum of
  \<^verbatim>\<open>intervals[j][0 .. intervals_count - 1]\<close>. The sum is that of the 32-bit
  arithmetic of the code; where the counters add up to less than \<open>2 ^ 31\<close> it is the
  sum of the integers.
\<close>

theorem rolling_sum_invariant:
  assumes "constants_ok K" and "guc_ok cfg"
    and "\<forall>c \<in> set calls. \<not> is_Reset c"
    and "pgss_shmem_startup K cfg False now fresh_shmem = Inr s0"
  shows "\<exists>s tbl g. run K calls s0 = Inr s \<and>
           messages_info_hashtable s = Some tbl \<and> global_variables s = Some g \<and>
           dom tbl = set (error_codes K) \<and>
           intervals_count g = guc_intervals_count cfg \<and>
           (\<forall>c e j. tbl c = Some e \<and> j < message_types_count \<longrightarrow>
              sum_in_buffer e ! j =
                sum_list (take (unat (intervals_count g)) (intervals e ! j)) \<and>
              (sum_list (map unat (take (unat (intervals_count g)) (intervals e ! j))) < 2 ^ 31 \<longrightarrow>
                 sint (sum_in_buffer e ! j) =
                   int (sum_list (map unat (take (unat (intervals_count g)) (intervals e ! j))))))"
proof -
  from startup_ok [OF assms(2,4)] have s0: "state_ok K s0" "ring_inv s0" by simp_all
  from run_ok [OF assms(1) s0(1), of calls] obtain s where
    s: "run K calls s0 = Inr s" "state_ok K s" by blast
  from run_ring [OF assms(1,3) s0 s(1)] have ring: "ring_inv s" .
  from s(2) obtain tbl g where tg: "messages_info_hashtable s = Some tbl"
    "global_variables s = Some g" "dom tbl = set (error_codes K)"
    unfolding state_ok_def by blast
  from startup_configuration [OF assms(4)] run_configuration [OF s(1)] tg(2)
  have n: "intervals_count g = guc_intervals_count cfg" by fastforce
  have "sum_in_buffer e ! j = sum_list (take (unat (intervals_count g)) (intervals e ! j))"
    if "tbl c = Some e" "j < message_types_count" for c e j
    using ring tg that unfolding ring_inv_def ring_ok_def by blast
  then show ?thesis
    using s(1) tg n sint_sum_list by (intro exI conjI) auto
qed

lemma types_list: "[0..<message_types_count] = [0, 1, 2]"
  by (simp add: message_types_count_def upt_rec)

lemma init_elem_zero_entry: "init_elem nm (zero_entry k) = (zero_entry k)\<lparr>name := nm\<rparr>"
  by (simp add: init_elem_def types_list init_type_def zero_entry_def MemSet_u32_zero
      replicate_update_same)

lemma constants_ok_sample: "constants_ok sample_constants"
  by (simp add: constants_ok_def sample_constants_def error_codes_def message_types_count_def)

lemma guc_ok_sample: "guc_ok sample_guc"
  by (simp add: guc_ok_def sample_guc_def)

theorem rolling_sum_invariant_witness:
  "\<exists>s0 s tbl g e.
     pgss_shmem_startup sample_constants sample_guc False 7 fresh_shmem = Inr s0 \<and>
     run sample_constants
       [Log sample_backend sample_error, Tick, Log sample_backend sample_error, Tick] s0 = Inr s \<and>
     messages_info_hashtable s = Some tbl \<and> global_variables s = Some g \<and>
     intervals_count g = 3 \<and> tbl 16801924 = Some e \<and>
     sum_in_buffer e ! 1 = sum_list (take (unat (intervals_count g)) (intervals e ! 1))"
proof -
  obtain s0 where s0: "pgss_shmem_startup sample_constants sample_guc False 7 fresh_shmem = Inr s0"
    using startup_Inr by blast
  have "\<forall>c \<in> set [Log sample_backend sample_error, Tick, Log sample_backend sample_error, Tick].
          \<not> is_Reset c" by simp
  from rolling_sum_invariant [OF constants_ok_sample guc_ok_sample this s0]
  obtain s tbl g where r: "run sample_constants
       [Log sample_backend sample_error, Tick, Log sample_backend sample_error, Tick] s0 = Inr s"
    "messages_info_hashtable s = Some tbl" "global_variables s = Some g"
    "dom tbl = set (error_codes sample_constants)"
    "intervals_count g = guc_intervals_count sample_guc"
    and sum: "\<And>c e j. tbl c = Some e \<Longrightarrow> j < message_types_count \<Longrightarrow>
       sum_in_buffer e ! j = sum_list (take (unat (intervals_count g)) (intervals e ! j))"
    by blast
  from r(4) obtain e where e: "tbl 16801924 = Some e"
    by (auto simp: sample_constants_def error_codes_def)
  from sum [OF e, of 1] have "sum_in_buffer e ! 1 =
      sum_list (take (unat (intervals_count g)) (intervals e ! 1))"
    by (simp add: message_types_count_def)
  with s0 r e show ?thesis
    by (auto simp: sample_guc_def)
qed

subsection \<open>The effect of a pass\<close>

lemma rotate_fold_fields:
  assumes "entry_ok e" and "j < message_types_count"
  shows "sum_in_buffer (fold (\<lambda>j. rotate_entry j idx) [0..<message_types_count] e) ! j =
           sum_in_buffer e ! j + message_count e ! j - intervals e ! j ! idx"
    and "intervals (fold (\<lambda>j. rotate_entry j idx) [0..<message_types_count] e) ! j =
           (intervals e ! j)[idx := message_count e ! j]"
    and "message_count (fold (\<lambda>j. rotate_entry j idx) [0..<message_types_count] e) ! j = 0"
proof -
  from assms(2) consider "j = 0" | "j = 1" | "j = 2"
    unfolding message_types_count_def by linarith
  note j = this
  from assms(1) have len: "length (message_count e) = 3" "length (sum_in_buffer e) = 3"
    "length (intervals e) = 3"
    by (simp_all add: entry_ok_def message_types_count_def)
  show "sum_in_buffer (fold (\<lambda>j. rotate_entry j idx) [0..<message_types_count] e) ! j =
           sum_in_buffer e ! j + message_count e ! j - intervals e ! j ! idx"
    using j len by cases (simp_all add: types_list rotate_entry_def Let_def)
  show "intervals (fold (\<lambda>j. rotate_entry j idx) [0..<message_types_count] e) ! j =
           (intervals e ! j)[idx := message_count e ! j]"
    using j len by cases (simp_all add: types_list rotate_entry_def Let_def)
  show "message_count (fold (\<lambda>j. rotate_entry j idx) [0..<message_types_count] e) ! j = 0"
    using j len by cases (simp_all add: types_list rotate_entry_def Let_def)
qed

lemma rotate_fold_name:
  "name (fold (\<lambda>j. rotate_entry j idx) [0..<message_types_count] e) = name e"
  by (simp add: types_list rotate_entry_def Let_def)

lemma tick_explicit:
  assumes K: "distinct (error_codes K)" and ok: "state_ok K s"
    and s: "messages_info_hashtable s = Some tbl" "global_variables s = Some g"
  shows "logerrors_update_info K s =
           Inr \<lparr>messages_info_hashtable =
                  Some (\<lambda>c. map_option
                     (fold (\<lambda>j. rotate_entry j (unat (current_interval_index g)))
                        [0..<message_types_count]) (tbl c)),
                global_variables =
                  Some (g\<lparr>current_interval_index :=
                            (current_interval_index g + 1) mod intervals_count g\<rparr>)\<rparr>"
proof -
  from ok s have dom: "dom tbl = set (error_codes K)" and n: "intervals_count g \<noteq> 0"
    by (auto simp: state_ok_def)
  from tick_ok [OF ok] obtain s' where s': "logerrors_update_info K s = Inr s'" by blast
  with s n obtain tbl' where
    t: "update_types [0..<message_types_count] (unat (current_interval_index g))
          (error_codes K) tbl = Inr tbl'"
    and s'_eq: "s' = \<lparr>messages_info_hashtable = Some tbl',
                      global_variables =
                           Some (g\<lparr>current_interval_index :=
                                     (current_interval_index g + 1) mod intervals_count g\<rparr>)\<rparr>"
    by (auto simp: logerrors_update_info_def split: sum.splits)
  have "tbl' c = map_option
          (fold (\<lambda>j. rotate_entry j (unat (current_interval_index g)))
             [0..<message_types_count]) (tbl c)" for c
  proof (cases "c \<in> set (error_codes K)")
    case True
    with update_types_effect [OF K t, of c] show ?thesis by simp
  next
    case False
    with dom have "tbl c = None" by blast
    with update_types_effect [OF K t, of c] False show ?thesis by simp
  qed
  then have "tbl' = (\<lambda>c. map_option
          (fold (\<lambda>j. rotate_entry j (unat (current_interval_index g)))
             [0..<message_types_count]) (tbl c))" by (rule ext)
  with s' s'_eq show ?thesis by simp
qed

text \<open>
  C4. A pass of \<^verbatim>\<open>logerrors_update_info\<close> over initialised structures returns; for every
  entry and every message type it sets the rolling sum to the old sum plus the current
  counter minus the slot at the current index, stores the counter in that slot and
  clears the counter, all with the index the pass started with; then the index becomes
  \<open>(index + 1) mod intervals_count\<close>, which is below \<^verbatim>\<open>intervals_count\<close> again.
\<close>

theorem tick_effect:
  assumes "constants_ok K" and "state_ok K s"
    and "messages_info_hashtable s = Some tbl" and "global_variables s = Some g"
  shows "\<exists>s' tbl'. logerrors_update_info K s = Inr s' \<and> state_ok K s' \<and>
           messages_info_hashtable s' = Some tbl' \<and>
           global_variables s' =
             Some (g\<lparr>current_interval_index :=
                       (current_interval_index g + 1) mod intervals_count g\<rparr>) \<and>
           (current_interval_index g + 1) mod intervals_count g < intervals_count g \<and>
           dom tbl' = dom tbl \<and>
           (\<forall>c e. tbl c = Some e \<longrightarrow>
              (\<exists>e'. tbl' c = Some e' \<and> name e' = name e \<and>
                 (\<forall>j < message_types_count.
                    sum_in_buffer e' ! j =
                      sum_in_buffer e ! j + message_count e ! j
                        - intervals e ! j ! unat (current_interval_index g) \<and>
                    intervals e' ! j =
                      (intervals e ! j)[unat (current_interval_index g) := message_count e ! j] \<and>
                    message_count e' ! j = 0)))"
proof -
  from assms(1) have K: "distinct (error_codes K)" by (simp add: constants_ok_def)
  let ?rot = "fold (\<lambda>j. rotate_entry j (unat (current_interval_index g)))
                [0..<message_types_count]"
  let ?tbl' = "\<lambda>c. map_option ?rot (tbl c)"
  let ?s' = "\<lparr>messages_info_hashtable = Some ?tbl',
              global_variables =
                Some (g\<lparr>current_interval_index :=
                          (current_interval_index g + 1) mod intervals_count g\<rparr>)\<rparr>"
  have eq: "logerrors_update_info K s = Inr ?s'"
    by (rule tick_explicit [OF K assms(2-4)])
  with tick_ok [OF assms(2)] have ok': "state_ok K ?s'" by auto
  then have idx: "(current_interval_index g + 1) mod intervals_count g < intervals_count g"
    by (simp add: state_ok_def)
  have ent: "entry_ok e" if "tbl c = Some e" for c e
    using assms(2,3) that by (auto simp: state_ok_def)
  have "dom ?tbl' = dom tbl" by (auto simp: dom_def)
  moreover have "\<exists>e'. ?tbl' c = Some e' \<and> name e' = name e \<and>
                 (\<forall>j < message_types_count.
                    sum_in_buffer e' ! j =
                      sum_in_buffer e ! j + message_count e ! j
                        - intervals e ! j ! unat (current_interval_index g) \<and>
                    intervals e' ! j =
                      (intervals e ! j)[unat (current_interval_index g) := message_count e ! j] \<and>
                    message_count e' ! j = 0)" if "tbl c = Some e" for c e
    using that rotate_fold_fields [OF ent [OF that]] by (simp add: rotate_fold_name)
  ultimately show ?thesis
    using eq ok' idx by (intro exI [of _ ?s'] exI [of _ ?tbl']) simp
qed

theorem tick_effect_witness:
  "\<exists>s0 s tbl g s' tbl' e e'.
     pgss_shmem_startup sample_constants sample_guc False 7 fresh_shmem = Inr s0 \<and>
     run sample_constants [Log sample_backend sample_error] s0 = Inr s \<and>
     messages_info_hashtable s = Some tbl \<and> global_variables s = Some g \<and>
     logerrors_update_info sample_constants s = Inr s' \<and>
     messages_info_hashtable s' = Some tbl' \<and>
     global_variables s' =
       Some (g\<lparr>current_interval_index :=
                 (current_interval_index g + 1) mod intervals_count g\<rparr>) \<and>
     (current_interval_index g + 1) mod intervals_count g < intervals_count g \<and>
     tbl 16801924 = Some e \<and> tbl' 16801924 = Some e' \<and>
     sum_in_buffer e' ! 1 =
       sum_in_buffer e ! 1 + message_count e ! 1
         - intervals e ! 1 ! unat (current_interval_index g) \<and>
     intervals e' ! 1 =
       (intervals e ! 1)[unat (current_interval_index g) := message_count e ! 1] \<and>
     message_count e' ! 1 = 0"
proof -
  obtain s0 where s0: "pgss_shmem_startup sample_constants sample_guc False 7 fresh_shmem = Inr s0"
    using startup_Inr by blast
  from startup_ok [OF guc_ok_sample s0] have "state_ok sample_constants s0" by simp
  from run_ok [OF constants_ok_sample this, of "[Log sample_backend sample_error]"]
  obtain s where s: "run sample_constants [Log sample_backend sample_error] s0 = Inr s"
    "state_ok sample_constants s" by blast
  then obtain tbl g where tg: "messages_info_hashtable s = Some tbl"
    "global_variables s = Some g" "dom tbl = set (error_codes sample_constants)"
    by (auto simp: state_ok_def)
  from tg(3) obtain e where e: "tbl 16801924 = Some e"
    by (auto simp: sample_constants_def error_codes_def)
  from tick_effect [OF constants_ok_sample s(2) tg(1,2)] e s0 s(1) tg(1,2)
  show ?thesis
    by (fastforce simp: message_types_count_def)
qed

subsection \<open>Messages through the hook\<close>

lemma strstr_sublist: "strstr hay needle \<noteq> None \<longleftrightarrow> sublist needle hay"
  by (induction hay) (simp_all add: sublist_Cons_right)

lemma strstr_Some: "(\<exists>y. strstr hay needle = Some y) \<longleftrightarrow> sublist needle hay"
  using strstr_sublist [of hay needle] by simp

lemma is_slow_iff:
  "is_slow edata \<longleftrightarrow> (\<exists>m. message edata = Some m \<and> sublist ''duration:'' m)"
  by (cases "message edata") (simp_all add: is_slow_def strstr_Some)

text \<open>
  C8. On initialised structures, in a backend that is not exiting, a message of the
  tracked level \<^verbatim>\<open>message_types_codes[j]\<close> makes the hook return normally with one more
  in \<^verbatim>\<open>message_count[j]\<close> of one entry and one more in \<^verbatim>\<open>total_count[j]\<close>: the entry
  of the message's own code when that code is registered, the entry of
  \<^verbatim>\<open>not_known_error_code\<close> when it is not. No other entry and no other counter of the
  tables changes.
\<close>

theorem unknown_code_fallback:
  assumes "constants_ok K" and "state_ok K s"
    and "messages_info_hashtable s = Some tbl" and "global_variables s = Some g"
    and "MyProc proc" and "\<not> proc_exit_inprogress proc"
    and "j < message_types_count" and "elevel edata = message_types_codes K ! j"
    and "k = (if sqlerrcode edata \<in> set (error_codes K) then sqlerrcode edata
              else not_known_error_code K)"
  shows "\<exists>s' tbl' g' elem elem'.
           logerrors_emit_log_hook K proc edata s = Inr s' \<and>
           messages_info_hashtable s' = Some tbl' \<and> global_variables s' = Some g' \<and>
           tbl k = Some elem \<and> tbl' k = Some elem' \<and>
           message_count elem' ! j = message_count elem ! j + 1 \<and>
           total_count g' ! j = total_count g ! j + 1 \<and>
           tbl' = tbl(k \<mapsto> elem\<lparr>message_count :=
                                   (message_count elem)[j := message_count elem ! j + 1]\<rparr>) \<and>
           total_count g' = (total_count g)[j := total_count g ! j + 1]"
proof -
  from assms(2,3,4) have dom: "dom tbl = set (error_codes K)"
    and ent: "\<And>c e. tbl c = Some e \<Longrightarrow> entry_ok e"
    and len: "length (total_count g) = message_types_count"
    by (auto simp: state_ok_def)
  from dom have k: "k = target_key K tbl (sqlerrcode edata)"
    unfolding assms(9) target_key_def by (auto simp: domIff)
  from target_in_table [OF assms(1) dom] obtain elem where
    elem: "tbl (target_key K tbl (sqlerrcode edata)) = Some elem" by blast
  from ent [OF elem] assms(7) have "j < length (message_count elem)"
    by (simp add: entry_ok_def)
  with hook_tracked [OF assms(1) dom assms(3,4,5,6,7,8) elem] elem len assms(7)
  show ?thesis
    unfolding k bump_def by simp
qed

theorem unknown_code_fallback_witness:
  "\<exists>s0 s' tbl tbl' g g' elem elem'.
     pgss_shmem_startup sample_constants sample_guc False 7 fresh_shmem = Inr s0 \<and>
     messages_info_hashtable s0 = Some tbl \<and> global_variables s0 = Some g \<and>
     logerrors_emit_log_hook sample_constants sample_backend
       \<lparr>elevel = 21, sqlerrcode = 12345, message = None\<rparr> s0 = Inr s' \<and>
     messages_info_hashtable s' = Some tbl' \<and> global_variables s' = Some g' \<and>
     tbl (- 1) = Some elem \<and> tbl' (- 1) = Some elem' \<and>
     message_count elem' ! 2 = message_count elem ! 2 + 1 \<and>
     total_count g' ! 2 = total_count g ! 2 + 1"
proof -
  obtain s0 where s0: "pgss_shmem_startup sample_constants sample_guc False 7 fresh_shmem = Inr s0"
    using startup_Inr by blast
  from startup_ok [OF guc_ok_sample s0] have ok: "state_ok sample_constants s0" by simp
  then obtain tbl g where tg: "messages_info_hashtable s0 = Some tbl"
    "global_variables s0 = Some g" by (auto simp: state_ok_def)
  have "\<exists>s' tbl' g' elem elem'.
           logerrors_emit_log_hook sample_constants sample_backend
             \<lparr>elevel = 21, sqlerrcode = 12345, message = None\<rparr> s0 = Inr s' \<and>
           messages_info_hashtable s' = Some tbl' \<and> global_variables s' = Some g' \<and>
           tbl (- 1) = Some elem \<and> tbl' (- 1) = Some elem' \<and>
           message_count elem' ! 2 = message_count elem ! 2 + 1 \<and>
           total_count g' ! 2 = total_count g ! 2 + 1 \<and>
           tbl' = tbl(- 1 \<mapsto> elem\<lparr>message_count :=
                                   (message_count elem)[2 := message_count elem ! 2 + 1]\<rparr>) \<and>
           total_count g' = (total_count g)[2 := total_count g ! 2 + 1]"
    by (rule unknown_code_fallback [OF constants_ok_sample ok tg])
      (simp_all add: sample_backend_def sample_constants_def message_types_count_def
        error_codes_def)
  with s0 tg show ?thesis by blast
qed

text \<open>
  C10. On initialised structures, in a backend that is not exiting, the hook returns
  normally and adds to the slow-log counter exactly 1 when the text of the message
  contains \<^verbatim>\<open>duration:\<close> and nothing otherwise, whatever the level of the message; when
  the level is none of \<^verbatim>\<open>message_types_codes\<close> the hash table and \<^verbatim>\<open>total_count\<close> are
  left as they were.
\<close>

theorem slow_log_counter:
  assumes "constants_ok K" and "state_ok K s"
    and "messages_info_hashtable s = Some tbl" and "global_variables s = Some g"
    and "MyProc proc" and "\<not> proc_exit_inprogress proc"
  shows "\<exists>s' tbl' g'.
           logerrors_emit_log_hook K proc edata s = Inr s' \<and>
           messages_info_hashtable s' = Some tbl' \<and> global_variables s' = Some g' \<and>
           count (slow_log_info g') =
             count (slow_log_info g) +
               (if \<exists>m. message edata = Some m \<and> sublist ''duration:'' m then 1 else 0) \<and>
           reset_time (slow_log_info g') = reset_time (slow_log_info g) \<and>
           (elevel edata \<notin> set (message_types_codes K) \<longrightarrow>
              tbl' = tbl \<and> total_count g' = total_count g)"
proof -
  from assms(2,3) have dom: "dom tbl = set (error_codes K)"
    by (auto simp: state_ok_def)
  have slow: "count (count_slow edata sl) =
      count sl + (if \<exists>m. message edata = Some m \<and> sublist ''duration:'' m then 1 else 0)"
    "reset_time (count_slow edata sl) = reset_time sl" for sl
    by (simp_all add: count_slow_def is_slow_iff)
  show ?thesis
  proof (cases "elevel edata \<in> set (message_types_codes K)")
    case False
    from assms(1) have "length (message_types_codes K) = message_types_count"
      by (simp add: constants_ok_def)
    from hook_untracked [OF assms(3,4,5,6) this False] slow show ?thesis by simp
  next
    case True
    with assms(1) obtain j where j: "j < message_types_count"
      "elevel edata = message_types_codes K ! j"
      by (auto simp: constants_ok_def in_set_conv_nth)
    from target_in_table [OF assms(1) dom] obtain elem where
      elem: "tbl (target_key K tbl (sqlerrcode edata)) = Some elem" by blast
    from hook_tracked [OF assms(1) dom assms(3,4,5,6) j elem] slow True show ?thesis by simp
  qed
qed

theorem slow_log_counter_witness:
  "\<exists>s0 s' tbl g g'.
     pgss_shmem_startup sample_constants sample_guc False 7 fresh_shmem = Inr s0 \<and>
     messages_info_hashtable s0 = Some tbl \<and> global_variables s0 = Some g \<and>
     logerrors_emit_log_hook sample_constants sample_backend
       \<lparr>elevel = 15, sqlerrcode = 0, message = Some ''duration: 1500.0 ms  statement: select 1''\<rparr> s0
       = Inr s' \<and>
     messages_info_hashtable s' = Some tbl \<and> global_variables s' = Some g' \<and>
     count (slow_log_info g') = count (slow_log_info g) + 1 \<and>
     total_count g' = total_count g"
proof -
  obtain s0 where s0: "pgss_shmem_startup sample_constants sample_guc False 7 fresh_shmem = Inr s0"
    using startup_Inr by blast
  from startup_ok [OF guc_ok_sample s0] have ok: "state_ok sample_constants s0" by simp
  then obtain tbl g where tg: "messages_info_hashtable s0 = Some tbl"
    "global_variables s0 = Some g" by (auto simp: state_ok_def)
  have sub: "sublist ''duration:'' ''duration: 1500.0 ms  statement: select 1''"
    by (simp add: sublist_Cons_right)
  have lvl: "(15::int) \<notin> set (message_types_codes sample_constants)"
    by (simp add: sample_constants_def)
  from slow_log_counter [OF constants_ok_sample ok tg, of sample_backend
      "\<lparr>elevel = 15, sqlerrcode = 0, message = Some ''duration: 1500.0 ms  statement: select 1''\<rparr>"]
    sub lvl s0 tg
  show ?thesis by (auto simp: sample_backend_def)
qed

subsection \<open>The snapshot\<close>

lemma stats_codes_rows:
  assumes "intervals_count g \<noteq> 0" and "prev_interval_index g < max_number_of_intervals"
  shows "stats_codes g tbl (message_type_names K ! lvl) lvl cs tupstore =
           Inr (tupstore @ concat (map (category_rows K g tbl lvl) cs))"
proof (induction cs arbitrary: tupstore)
  case Nil
  then show ?case by simp
next
  case (Cons c cs)
  show ?case
  proof (cases "tbl c")
    case None
    with Cons.IH show ?thesis by (simp add: category_rows_def)
  next
    case (Some info)
    from assms(2) have "\<not> max_number_of_intervals
        \<le> unat ((current_interval_index g - 1 + intervals_count g) mod intervals_count g)"
      by (simp add: prev_interval_index_def)
    with Some assms(1) Cons.IH show ?thesis
      by (simp add: category_rows_def long_row_def short_row_def Let_def
          prev_interval_index_def short_interval_def long_interval_def)
  qed
qed

lemma stats_types_rows:
  assumes "intervals_count g \<noteq> 0" and "prev_interval_index g < max_number_of_intervals"
  shows "stats_types K g tbl ls tupstore =
           Inr (tupstore @
             concat (map (\<lambda>lvl. total_row K g lvl #
                           concat (map (category_rows K g tbl lvl) (error_codes K))) ls))"
proof (induction ls arbitrary: tupstore)
  case Nil
  then show ?case by simp
next
  case (Cons lvl ls)
  show ?case
    by (simp add: stats_codes_rows [OF assms] Cons.IH total_row_def)
qed

lemma prev_index_in_ring:
  assumes "intervals_count g \<noteq> 0" and "unat (intervals_count g) \<le> max_number_of_intervals"
  shows "prev_interval_index g < max_number_of_intervals"
proof -
  have "(current_interval_index g - 1 + intervals_count g) mod intervals_count g
          < intervals_count g"
    using assms(1) by (simp add: word_mod_less_divisor word_neq_0_conv)
  then have "prev_interval_index g < unat (intervals_count g)"
    by (simp add: prev_interval_index_def word_less_nat_alt)
  with assms(2) show ?thesis by simp
qed

lemma stats_rows:
  assumes "state_ok K s"
    and "messages_info_hashtable s = Some tbl" and "global_variables s = Some g"
    and "rsinfo_is_ReturnSetInfo fc" and "materialize_allowed fc" and "result_is_composite fc"
  shows "pg_log_errors_stats K fc s = Inr (snapshot_rows K g tbl)"
proof -
  from assms(1-3) have n: "intervals_count g \<noteq> 0"
    "unat (intervals_count g) \<le> max_number_of_intervals"
    by (auto simp: state_ok_def)
  from stats_types_rows [OF n(1) prev_index_in_ring [OF n]] assms(2-6) show ?thesis
    by (simp add: pg_log_errors_stats_def snapshot_rows_def)
qed

lemma category_rows_window:
  "r \<in> set (category_rows K g tbl lvl c) \<Longrightarrow>
   row_time_interval r \<noteq> None \<and> 0 <s row_count r"
  by (auto simp: category_rows_def long_row_def short_row_def split: option.splits if_splits)

lemma snapshot_rows_cases:
  assumes "r \<in> set (snapshot_rows K g tbl)"
  obtains (total) lvl where "lvl < message_types_count" "r = total_row K g lvl"
  | (category) lvl c where "lvl < message_types_count" "c \<in> set (error_codes K)"
      "r \<in> set (category_rows K g tbl lvl c)"
  using assms by (auto simp: snapshot_rows_def)

lemma snapshot_rows_positive:
  assumes "r \<in> set (snapshot_rows K g tbl)" and "row_time_interval r \<noteq> None"
  shows "0 <s row_count r"
  using assms(1)
proof (cases rule: snapshot_rows_cases)
  case (total lvl)
  with assms(2) show ?thesis by (simp add: total_row_def)
next
  case (category lvl c)
  then show ?thesis using category_rows_window by blast
qed

lemma snapshot_rows_totals:
  "filter (\<lambda>r. row_time_interval r = None) (snapshot_rows K g tbl) =
     map (total_row K g) [0..<message_types_count]"
proof -
  have cat: "filter (\<lambda>r. row_time_interval r = None)
               (concat (map (category_rows K g tbl lvl) cs)) = []" for lvl cs
    by (induction cs) (auto simp: filter_empty_conv dest: category_rows_window)
  have "filter (\<lambda>r. row_time_interval r = None)
          (concat (map (\<lambda>lvl. total_row K g lvl #
                         concat (map (category_rows K g tbl lvl) (error_codes K))) ls)) =
        map (total_row K g) ls" for ls
    by (induction ls) (simp_all add: cat total_row_def)
  then show ?thesis by (simp add: snapshot_rows_def)
qed

lemma category_rows_in_snapshot:
  assumes "lvl < message_types_count" and "c \<in> set (error_codes K)"
    and "r \<in> set (category_rows K g tbl lvl c)"
  shows "r \<in> set (snapshot_rows K g tbl)"
  using assms by (auto simp: snapshot_rows_def)

lemma total_row_in_snapshot:
  "lvl < message_types_count \<Longrightarrow> total_row K g lvl \<in> set (snapshot_rows K g tbl)"
  by (auto simp: snapshot_rows_def)

lemma long_row_emitted:
  assumes "lvl < message_types_count" and "c \<in> set (error_codes K)" and "tbl c = Some info"
  shows "long_row K g lvl info \<in> set (snapshot_rows K g tbl) \<longleftrightarrow>
           0 <s sum_in_buffer info ! lvl"
proof
  assume "long_row K g lvl info \<in> set (snapshot_rows K g tbl)"
  from snapshot_rows_positive [OF this] show "0 <s sum_in_buffer info ! lvl"
    by (simp add: long_row_def)
next
  assume "0 <s sum_in_buffer info ! lvl"
  with assms(3) have "long_row K g lvl info \<in> set (category_rows K g tbl lvl c)"
    by (simp add: category_rows_def)
  from category_rows_in_snapshot [OF assms(1,2) this] show
    "long_row K g lvl info \<in> set (snapshot_rows K g tbl)" .
qed

lemma short_row_emitted:
  assumes "lvl < message_types_count" and "c \<in> set (error_codes K)" and "tbl c = Some info"
  shows "short_row K g lvl info \<in> set (snapshot_rows K g tbl) \<longleftrightarrow>
           0 <s intervals info ! lvl ! prev_interval_index g"
proof
  assume "short_row K g lvl info \<in> set (snapshot_rows K g tbl)"
  from snapshot_rows_positive [OF this] show "0 <s intervals info ! lvl ! prev_interval_index g"
    by (simp add: short_row_def)
next
  assume "0 <s intervals info ! lvl ! prev_interval_index g"
  with assms(3) have "short_row K g lvl info \<in> set (category_rows K g tbl lvl c)"
    by (simp add: category_rows_def)
  from category_rows_in_snapshot [OF assms(1,2) this] show
    "short_row K g lvl info \<in> set (snapshot_rows K g tbl)" .
qed

text \<open>
  C6. On initialised structures, called as a set-returning function, the snapshot
  succeeds with the rows of \<open>snapshot_rows\<close>: the rows with a null time interval are
  exactly the \<^verbatim>\<open>TOTAL\<close> rows, one per message type in the order of the types, each with
  \<^verbatim>\<open>total_count\<close> of its type as the count, emitted whatever that count is; and for
  every registered entry and every type the long-interval row is among the rows exactly
  when \<^verbatim>\<open>sum_in_buffer\<close> (a C \<^verbatim>\<open>int\<close>) is positive, the short-interval row exactly when
  the slot of the last completed interval, read as a C \<^verbatim>\<open>int\<close>, is positive.
\<close>

theorem snapshot_rows_emitted:
  assumes "state_ok K s"
    and "messages_info_hashtable s = Some tbl" and "global_variables s = Some g"
    and "rsinfo_is_ReturnSetInfo fc" and "materialize_allowed fc" and "result_is_composite fc"
  shows "\<exists>rows. pg_log_errors_stats K fc s = Inr rows \<and> rows = snapshot_rows K g tbl \<and>
           filter (\<lambda>r. row_time_interval r = None) rows =
             map (\<lambda>lvl. \<lparr>row_time_interval = None, row_type = message_type_names K ! lvl,
                          row_message = ''TOTAL'', row_count = total_count g ! lvl\<rparr>)
               [0..<message_types_count] \<and>
           (\<forall>lvl c info.
              lvl < message_types_count \<and> c \<in> set (error_codes K) \<and> tbl c = Some info \<longrightarrow>
                (long_row K g lvl info \<in> set rows \<longleftrightarrow> 0 <s sum_in_buffer info ! lvl) \<and>
                (short_row K g lvl info \<in> set rows \<longleftrightarrow>
                   0 <s intervals info ! lvl ! prev_interval_index g))"
proof -
  have "pg_log_errors_stats K fc s = Inr (snapshot_rows K g tbl)"
    by (rule stats_rows [OF assms])
  moreover have "filter (\<lambda>r. row_time_interval r = None) (snapshot_rows K g tbl) =
             map (\<lambda>lvl. \<lparr>row_time_interval = None, row_type = message_type_names K ! lvl,
                          row_message = ''TOTAL'', row_count = total_count g ! lvl\<rparr>)
               [0..<message_types_count]"
    using snapshot_rows_totals [of K g tbl] by (simp add: total_row_def [abs_def])
  moreover have "(long_row K g lvl info \<in> set (snapshot_rows K g tbl) \<longleftrightarrow>
                   0 <s sum_in_buffer info ! lvl) \<and>
                 (short_row K g lvl info \<in> set (snapshot_rows K g tbl) \<longleftrightarrow>
                   0 <s intervals info ! lvl ! prev_interval_index g)"
    if "lvl < message_types_count \<and> c \<in> set (error_codes K) \<and> tbl c = Some info"
    for lvl c info
    using that long_row_emitted [of lvl c K tbl info g] short_row_emitted [of lvl c K tbl info g]
    by blast
  ultimately show ?thesis
    by (intro exI [of _ "snapshot_rows K g tbl"]) blast
qed

theorem snapshot_rows_emitted_witness:
  "\<exists>s0 tbl g rows info.
     pgss_shmem_startup sample_constants sample_guc False 7 fresh_shmem = Inr s0 \<and>
     messages_info_hashtable s0 = Some tbl \<and> global_variables s0 = Some g \<and>
     pg_log_errors_stats sample_constants sample_fcinfo s0 = Inr rows \<and>
     filter (\<lambda>r. row_time_interval r = None) rows =
       map (\<lambda>lvl. \<lparr>row_time_interval = None,
                    row_type = message_type_names sample_constants ! lvl,
                    row_message = ''TOTAL'', row_count = total_count g ! lvl\<rparr>)
         [0..<message_types_count] \<and>
     tbl 16801924 = Some info \<and>
     (long_row sample_constants g 1 info \<in> set rows \<longleftrightarrow> 0 <s sum_in_buffer info ! 1) \<and>
     (short_row sample_constants g 1 info \<in> set rows \<longleftrightarrow>
        0 <s intervals info ! 1 ! prev_interval_index g)"
proof -
  obtain s0 where s0: "pgss_shmem_startup sample_constants sample_guc False 7 fresh_shmem = Inr s0"
    using startup_Inr by blast
  from startup_ok [OF guc_ok_sample s0] have ok: "state_ok sample_constants s0" by simp
  then obtain tbl g where tg: "messages_info_hashtable s0 = Some tbl"
    "global_variables s0 = Some g" "dom tbl = set (error_codes sample_constants)"
    by (auto simp: state_ok_def)
  from tg(3) obtain info where info: "tbl 16801924 = Some info"
    "16801924 \<in> set (error_codes sample_constants)"
    by (auto simp: sample_constants_def error_codes_def)
  have "(1::nat) < message_types_count" by (simp add: message_types_count_def)
  with snapshot_rows_emitted [OF ok tg(1,2), of sample_fcinfo] info s0 tg(1,2)
  show ?thesis
    by (fastforce simp: sample_fcinfo_def)
qed

subsection \<open>One entry along a run\<close>

lemma init_entries_other: "c \<notin> fst ` set tb \<Longrightarrow> init_entries tb tbl c = tbl c"
  by (induction tb tbl rule: init_entries.induct) auto

lemma init_entries_lookup:
  "distinct (map fst tb) \<Longrightarrow> (c, nm) \<in> set tb \<Longrightarrow>
   init_entries tb tbl c = Some (init_elem nm (hash_enter tbl c))"
proof (induction tb tbl rule: init_entries.induct)
  case (1 tbl)
  then show ?case by simp
next
  case (2 a n rest tbl)
  show ?case
  proof (cases "a = c")
    case True
    with "2.prems" have "nm = n" "c \<notin> fst ` set rest"
      by (auto simp: image_iff)
    with True show ?thesis by (simp add: init_entries_other)
  next
    case False
    with "2.prems" have "distinct (map fst rest)" "(c, nm) \<in> set rest" by auto
    from "2.IH" [OF this]
    have "init_entries rest (tbl(a \<mapsto> init_elem n (hash_enter tbl a))) c =
            Some (init_elem nm (hash_enter (tbl(a \<mapsto> init_elem n (hash_enter tbl a))) c))" .
    moreover have "hash_enter (tbl(a \<mapsto> init_elem n (hash_enter tbl a))) c = hash_enter tbl c"
      using False by (simp add: hash_enter_def)
    ultimately show ?thesis by simp
  qed
qed

lemma init_elem_fields:
  assumes "entry_ok e" and "j < message_types_count"
  shows "message_count (init_elem nm e) ! j = 0"
    and "sum_in_buffer (init_elem nm e) ! j = 0"
    and "intervals (init_elem nm e) ! j = MemSet_u32 (intervals e ! j) max_number_of_intervals"
proof -
  from assms(2) consider "j = 0" | "j = 1" | "j = 2"
    unfolding message_types_count_def by linarith
  note j = this
  from assms(1) have len: "length (message_count e) = 3" "length (sum_in_buffer e) = 3"
    "length (intervals e) = 3"
    by (simp_all add: entry_ok_def message_types_count_def)
  show "message_count (init_elem nm e) ! j = 0"
    using j len by cases (simp_all add: types_list init_elem_def init_type_def)
  show "sum_in_buffer (init_elem nm e) ! j = 0"
    using j len by cases (simp_all add: types_list init_elem_def init_type_def)
  show "intervals (init_elem nm e) ! j = MemSet_u32 (intervals e ! j) max_number_of_intervals"
    using j len by cases (simp_all add: types_list init_elem_def init_type_def)
qed

lemma init_elem_name: "name (init_elem nm e) = nm"
  by (simp add: types_list init_elem_def init_type_def)

lemma init_total_count_nth:
  assumes "length tc = message_types_count" and "j < message_types_count"
  shows "init_total_count tc ! j = 0"
proof -
  from assms(2) consider "j = 0" | "j = 1" | "j = 2"
    unfolding message_types_count_def by linarith
  moreover from assms(1) have "length tc = 3" by (simp add: message_types_count_def)
  ultimately show ?thesis
    unfolding init_total_count_def types_list by cases simp_all
qed

lemma tracks_startup:
  assumes K: "constants_ok K" and cfg: "guc_ok cfg"
    and X: "(X, nm) \<in> set (error_table K)" and j: "j < message_types_count"
    and s0: "pgss_shmem_startup K cfg False now fresh_shmem = Inr s0"
  shows "tracks K s0 X j nm (guc_interval cfg) (guc_intervals_count cfg) view_zero"
proof -
  let ?tbl = "init_entries (error_table K) Map.empty"
  let ?cfg_g = "global_variables_init cfg zero_global"
  let ?g = "slow_log_info_init now
              (?cfg_g\<lparr>current_interval_index := 0,
                    total_count := init_total_count (total_count ?cfg_g)\<rparr>)"
  from s0 have s: "messages_info_hashtable s0 = Some ?tbl" "global_variables s0 = Some ?g"
    by (auto simp: pgss_shmem_startup_def logerrors_init_def fresh_shmem_def)
  from K have "distinct (map fst (error_table K))"
    by (simp add: constants_ok_def error_codes_def)
  from init_entries_lookup [OF this X, of Map.empty]
  have e: "?tbl X = Some ((zero_entry X)\<lparr>name := nm\<rparr>)"
    by (simp add: hash_enter_def init_elem_zero_entry)
  have "length (total_count ?cfg_g) = message_types_count"
    by (simp add: global_variables_init_def zero_global_def message_types_count_def)
  from init_total_count_nth [OF this j]
  have tot: "total_count ?g ! j = 0" by (simp add: slow_log_info_init_def)
  from j have cell: "message_count ((zero_entry X)\<lparr>name := nm\<rparr>) ! j = 0"
    "sum_in_buffer ((zero_entry X)\<lparr>name := nm\<rparr>) ! j = 0"
    "intervals ((zero_entry X)\<lparr>name := nm\<rparr>) ! j = replicate max_number_of_intervals 0"
    by (simp_all add: zero_entry_def message_types_count_def max_number_of_intervals_def)
  have g: "current_interval_index ?g = 0" "interval ?g = guc_interval cfg"
    "intervals_count ?g = guc_intervals_count cfg"
    by (simp_all add: slow_log_info_init_def global_variables_init_def)
  from startup_ok [OF cfg s0] have "state_ok K s0" by simp
  with s e tot cell g show ?thesis
    unfolding tracks_def view_zero_def by simp
qed

lemma tracks_tick:
  assumes K: "constants_ok K" and j: "j < message_types_count"
    and t: "tracks K s X j nm iv n v"
  shows "\<exists>s'. logerrors_update_info K s = Inr s' \<and> tracks K s' X j nm iv n (view_call n Tick v)"
proof -
  from t obtain tbl g e where ok: "state_ok K s"
    and s: "messages_info_hashtable s = Some tbl" "global_variables s = Some g"
    and e: "tbl X = Some e" "name e = nm" "message_count e ! j = v_bucket v"
      "sum_in_buffer e ! j = v_rolling v" "intervals e ! j = v_ring v"
    and g: "current_interval_index g = v_index v" "total_count g ! j = v_total v"
      "interval g = iv" "intervals_count g = n"
    unfolding tracks_def by blast
  from K have d: "distinct (error_codes K)" by (simp add: constants_ok_def)
  let ?rot = "fold (\<lambda>j. rotate_entry j (unat (current_interval_index g)))
                [0..<message_types_count]"
  let ?s' = "\<lparr>messages_info_hashtable = Some (\<lambda>c. map_option ?rot (tbl c)),
              global_variables =
                Some (g\<lparr>current_interval_index :=
                          (current_interval_index g + 1) mod intervals_count g\<rparr>)\<rparr>"
  have eq: "logerrors_update_info K s = Inr ?s'"
    by (rule tick_explicit [OF d ok s])
  with tick_ok [OF ok] have ok': "state_ok K ?s'" by auto
  from ok s e(1) have "entry_ok e" by (auto simp: state_ok_def)
  from rotate_fold_fields [OF this j, of "unat (current_interval_index g)"] e g ok'
  have "tracks K ?s' X j nm iv n (view_call n Tick v)"
    unfolding tracks_def by (simp add: rotate_fold_name)
  with eq show ?thesis by blast
qed

lemma tracks_log:
  assumes K: "constants_ok K" and j: "j < message_types_count"
    and t: "tracks K s X j nm iv n v"
    and proc: "MyProc proc" "\<not> proc_exit_inprogress proc"
    and ed: "elevel edata = message_types_codes K ! j" "sqlerrcode edata = X"
  shows "\<exists>s'. logerrors_emit_log_hook K proc edata s = Inr s' \<and>
           tracks K s' X j nm iv n (view_call n (Log proc edata) v)"
proof -
  from t obtain tbl g e where ok: "state_ok K s"
    and s: "messages_info_hashtable s = Some tbl" "global_variables s = Some g"
    and e: "tbl X = Some e" "name e = nm" "message_count e ! j = v_bucket v"
      "sum_in_buffer e ! j = v_rolling v" "intervals e ! j = v_ring v"
    and g: "current_interval_index g = v_index v" "total_count g ! j = v_total v"
      "interval g = iv" "intervals_count g = n"
    unfolding tracks_def by blast
  from ok s have dom: "dom tbl = set (error_codes K)"
    and len: "length (total_count g) = message_types_count"
    by (auto simp: state_ok_def)
  from ok s e(1) have "entry_ok e" by (auto simp: state_ok_def)
  with j have jl: "j < length (message_count e)" by (simp add: entry_ok_def)
  from e(1) ed(2) have key: "target_key K tbl (sqlerrcode edata) = X"
    by (simp add: target_key_def)
  let ?s' = "\<lparr>messages_info_hashtable = Some (tbl(X \<mapsto> bump j e)),
              global_variables =
                Some (g\<lparr>total_count := (total_count g)[j := total_count g ! j + 1],
                        slow_log_info := count_slow edata (slow_log_info g)\<rparr>)\<rparr>"
  from e(1) key have "tbl (target_key K tbl (sqlerrcode edata)) = Some e" by simp
  from hook_tracked [OF K dom s proc j ed(1) this] key
  have eq: "logerrors_emit_log_hook K proc edata s = Inr ?s'" by simp
  with hook_ok [OF K ok, of proc edata] have ok': "state_ok K ?s'" by auto
  from e g jl len j ok' have "tracks K ?s' X j nm iv n (view_call n (Log proc edata) v)"
    unfolding tracks_def by (simp add: bump_def)
  with eq show ?thesis by blast
qed

lemma tracks_reset:
  assumes K: "constants_ok K" and j: "j < message_types_count"
    and X: "(X, nm) \<in> set (error_table K)"
    and t: "tracks K s X j nm iv n v"
  shows "\<exists>s'. pg_log_errors_reset K now s = Inr s' \<and>
           tracks K s' X j nm iv n (view_call n (Reset now) v)"
proof -
  from t obtain tbl g e where ok: "state_ok K s"
    and s: "messages_info_hashtable s = Some tbl" "global_variables s = Some g"
    and e: "tbl X = Some e" "intervals e ! j = v_ring v"
    and g: "interval g = iv" "intervals_count g = n"
    unfolding tracks_def by blast
  from ok s have len: "length (total_count g) = message_types_count"
    by (auto simp: state_ok_def)
  from ok s e(1) have ent: "entry_ok e" by (auto simp: state_ok_def)
  let ?s' = "\<lparr>messages_info_hashtable = Some (init_entries (error_table K) tbl),
              global_variables =
                Some (slow_log_info_init now
                       (g\<lparr>current_interval_index := 0,
                          total_count := init_total_count (total_count g)\<rparr>))\<rparr>"
  from s have eq: "pg_log_errors_reset K now s = Inr ?s'"
    by (simp add: pg_log_errors_reset_def logerrors_init_def)
  with reset_ok [OF ok, of now] have ok': "state_ok K ?s'" by auto
  from K have "distinct (map fst (error_table K))"
    by (simp add: constants_ok_def error_codes_def)
  from init_entries_lookup [OF this X, of tbl] e(1)
  have e': "init_entries (error_table K) tbl X = Some (init_elem nm e)"
    by (simp add: hash_enter_def)
  from init_elem_fields [OF ent j, of nm] init_total_count_nth [OF len j] e' e(2) g ok'
  have "tracks K ?s' X j nm iv n (view_call n (Reset now) v)"
    unfolding tracks_def by (simp add: init_elem_name slow_log_info_init_def)
  with eq show ?thesis by blast
qed

lemma tracks_step:
  assumes "constants_ok K" and "j < message_types_count" and "(X, nm) \<in> set (error_table K)"
    and "tracks K s X j nm iv n v" and "about K X j c"
  shows "\<exists>s'. step K c s = Inr s' \<and> tracks K s' X j nm iv n (view_call n c v)"
proof (cases c)
  case Tick
  with tracks_tick [OF assms(1,2,4)] show ?thesis by simp
next
  case (Log proc edata)
  with tracks_log [OF assms(1,2,4), of proc edata] assms(5) show ?thesis by simp
next
  case (Reset now)
  with tracks_reset [OF assms(1,2,3,4), of now] show ?thesis by simp
qed

lemma tracks_run:
  assumes "constants_ok K" and "j < message_types_count" and "(X, nm) \<in> set (error_table K)"
  shows "tracks K s X j nm iv n v \<Longrightarrow> \<forall>c \<in> set cs. about K X j c \<Longrightarrow>
         \<exists>s'. run K cs s = Inr s' \<and> tracks K s' X j nm iv n (fold (view_call n) cs v)"
proof (induction cs arbitrary: s v)
  case Nil
  then show ?case by simp
next
  case (Cons c cs)
  from Cons.prems(2) have "about K X j c" by simp
  from tracks_step [OF assms Cons.prems(1) this] obtain s1 where
    s1: "step K c s = Inr s1" "tracks K s1 X j nm iv n (view_call n c v)" by blast
  from Cons.IH [OF s1(2)] Cons.prems(2) s1(1) show ?case by simp
qed

lemma tracks_snapshot:
  assumes j: "j < message_types_count" and X: "(X, nm) \<in> set (error_table K)"
    and t: "tracks K s X j nm iv n v"
    and fc: "rsinfo_is_ReturnSetInfo fc" "materialize_allowed fc" "result_is_composite fc"
  shows "\<exists>rows. pg_log_errors_stats K fc s = Inr rows \<and>
           \<lparr>row_time_interval = None, row_type = message_type_names K ! j,
            row_message = ''TOTAL'', row_count = v_total v\<rparr> \<in> set rows \<and>
           (\<lparr>row_time_interval = Some (c_div iv 1000 * n), row_type = message_type_names K ! j,
             row_message = nm, row_count = v_rolling v\<rparr> \<in> set rows \<longleftrightarrow> 0 <s v_rolling v) \<and>
           (\<lparr>row_time_interval = Some (c_div iv 1000), row_type = message_type_names K ! j,
             row_message = nm, row_count = v_ring v ! unat ((v_index v - 1 + n) mod n)\<rparr>
               \<in> set rows \<longleftrightarrow>
            0 <s v_ring v ! unat ((v_index v - 1 + n) mod n))"
proof -
  from t obtain tbl g e where ok: "state_ok K s"
    and s: "messages_info_hashtable s = Some tbl" "global_variables s = Some g"
    and e: "tbl X = Some e" "name e = nm" 
      "sum_in_buffer e ! j = v_rolling v" "intervals e ! j = v_ring v"
    and g: "current_interval_index g = v_index v" "total_count g ! j = v_total v"
      "interval g = iv" "intervals_count g = n"
    unfolding tracks_def by blast
  from X have Xc: "X \<in> set (error_codes K)" by (force simp: error_codes_def)
  have "pg_log_errors_stats K fc s = Inr (snapshot_rows K g tbl)"
    by (rule stats_rows [OF ok s fc])
  moreover from total_row_in_snapshot [OF j, of K g tbl] g
  have "\<lparr>row_time_interval = None, row_type = message_type_names K ! j,
            row_message = ''TOTAL'', row_count = v_total v\<rparr> \<in> set (snapshot_rows K g tbl)"
    by (simp add: total_row_def)
  moreover from long_row_emitted [of j X K tbl e g, OF j Xc e(1)] e g
  have "\<lparr>row_time_interval = Some (c_div iv 1000 * n), row_type = message_type_names K ! j,
             row_message = nm, row_count = v_rolling v\<rparr> \<in> set (snapshot_rows K g tbl)
         \<longleftrightarrow> 0 <s v_rolling v"
    by (simp add: long_row_def long_interval_def short_interval_def)
  moreover from short_row_emitted [of j X K tbl e g, OF j Xc e(1)] e g
  have "\<lparr>row_time_interval = Some (c_div iv 1000), row_type = message_type_names K ! j,
             row_message = nm, row_count = v_ring v ! unat ((v_index v - 1 + n) mod n)\<rparr>
               \<in> set (snapshot_rows K g tbl) \<longleftrightarrow>
            0 <s v_ring v ! unat ((v_index v - 1 + n) mod n)"
    by (simp add: short_row_def short_interval_def prev_interval_index_def)
  ultimately show ?thesis by blast
qed

lemma tracks_category:
  assumes t: "tracks K s X j nm iv n v"
    and fc: "rsinfo_is_ReturnSetInfo fc" "materialize_allowed fc" "result_is_composite fc"
  shows "\<exists>tbl g. messages_info_hashtable s = Some tbl \<and> global_variables s = Some g \<and>
           pg_log_errors_stats K fc s = Inr (snapshot_rows K g tbl) \<and>
           category_rows K g tbl j X =
             (if 0 <s v_rolling v
              then [\<lparr>row_time_interval = Some (c_div iv 1000 * n),
                     row_type = message_type_names K ! j,
                     row_message = nm, row_count = v_rolling v\<rparr>]
              else []) @
             (if 0 <s v_ring v ! unat ((v_index v - 1 + n) mod n)
              then [\<lparr>row_time_interval = Some (c_div iv 1000),
                     row_type = message_type_names K ! j, row_message = nm,
                     row_count = v_ring v ! unat ((v_index v - 1 + n) mod n)\<rparr>]
              else [])"
proof -
  from t obtain tbl g e where ok: "state_ok K s"
    and s: "messages_info_hashtable s = Some tbl" "global_variables s = Some g"
    and e: "tbl X = Some e" "name e = nm"
      "sum_in_buffer e ! j = v_rolling v" "intervals e ! j = v_ring v"
    and g: "current_interval_index g = v_index v" "interval g = iv" "intervals_count g = n"
    unfolding tracks_def by blast
  have "pg_log_errors_stats K fc s = Inr (snapshot_rows K g tbl)"
    by (rule stats_rows [OF ok s fc])
  moreover from e g have "category_rows K g tbl j X =
             (if 0 <s v_rolling v
              then [\<lparr>row_time_interval = Some (c_div iv 1000 * n),
                     row_type = message_type_names K ! j,
                     row_message = nm, row_count = v_rolling v\<rparr>]
              else []) @
             (if 0 <s v_ring v ! unat ((v_index v - 1 + n) mod n)
              then [\<lparr>row_time_interval = Some (c_div iv 1000),
                     row_type = message_type_names K ! j, row_message = nm,
                     row_count = v_ring v ! unat ((v_index v - 1 + n) mod n)\<rparr>]
              else [])"
    by (simp add: category_rows_def long_row_def short_row_def long_interval_def
        short_interval_def prev_interval_index_def)
  ultimately show ?thesis using s by blast
qed

lemma tracks_ring_slot:
  "tracks K s X j nm iv n v \<Longrightarrow> ring_slot (Inr s) X j i = Some (v_ring v ! i)"
  by (auto simp: tracks_def ring_slot_def)

lemma tracks_ring_index:
  "tracks K s X j nm iv n v \<Longrightarrow> ring_index (Inr s) = Some (v_index v)"
  by (auto simp: tracks_def ring_index_def)

lemma tracks_rolling_sum:
  "tracks K s X j nm iv n v \<Longrightarrow> rolling_sum (Inr s) X j = Some (v_rolling v)"
  by (auto simp: tracks_def rolling_sum_def)

lemma tracks_run_from:
  assumes K: "constants_ok K" and cfg: "guc_ok cfg"
    and X: "(X, nm) \<in> set (error_table K)" and j: "j < message_types_count"
    and cs: "\<forall>c \<in> set cs. about K X j c"
  shows "\<exists>s. run_from K cfg now cs = Inr s \<and>
           tracks K s X j nm (guc_interval cfg) (guc_intervals_count cfg)
             (fold (view_call (guc_intervals_count cfg)) cs view_zero)"
proof -
  obtain s0 where s0: "pgss_shmem_startup K cfg False now fresh_shmem = Inr s0"
    using startup_Inr by blast
  from tracks_run [OF K j X tracks_startup [OF K cfg X j s0] cs] s0 show ?thesis
    by (simp add: run_from_def)
qed

subsection \<open>The scenarios\<close>

lemma view_scenario_A:
  "fold (view_call 3) (scenario_A proc edata) view_zero =
     \<lparr>v_bucket = 0, v_rolling = 2,
      v_ring = (replicate max_number_of_intervals 0)[0 := 2], v_index = 1, v_total = 2\<rparr>"
  by (simp add: scenario_A_def view_zero_def max_number_of_intervals_def)

lemma view_scenario_B:
  "fold (view_call 3) (scenario_A proc edata @ [Tick, Tick]) view_zero =
     \<lparr>v_bucket = 0, v_rolling = 2,
      v_ring = (replicate max_number_of_intervals 0)[0 := 2, 1 := 0, 2 := 0],
      v_index = 0, v_total = 2\<rparr>"
  by (simp add: view_scenario_A max_number_of_intervals_def)

lemma view_scenario_B_next:
  "fold (view_call 3) (scenario_A proc edata @ [Tick, Tick, Tick]) view_zero =
     \<lparr>v_bucket = 0, v_rolling = 0,
      v_ring = (replicate max_number_of_intervals 0)[0 := 2, 1 := 0, 2 := 0, 0 := 0],
      v_index = 1, v_total = 2\<rparr>"
  by (simp add: view_scenario_A max_number_of_intervals_def)

lemma c_div_1000: "c_div 1000 1000 = 1"
  by (simp add: c_div_def)

lemma guc_ok_scenario:
  "guc_interval cfg = 1000 \<Longrightarrow> guc_intervals_count cfg = 3 \<Longrightarrow> guc_ok cfg"
  by (simp add: guc_ok_def)

lemma about_scenario_A:
  assumes "MyProc proc" and "\<not> proc_exit_inprogress proc"
    and "elevel edata = message_types_codes K ! j" and "sqlerrcode edata = X"
  shows "\<forall>c \<in> set (scenario_A proc edata @ replicate k Tick). about K X j c"
  using assms by (auto simp: scenario_A_def)

lemma run_snapshot:
  assumes K: "constants_ok K" and X: "(X, nm) \<in> set (error_table K)"
    and j: "j < message_types_count" and cfg: "guc_ok cfg"
    and cs: "\<forall>c \<in> set cs. about K X j c"
    and fc: "rsinfo_is_ReturnSetInfo fc" "materialize_allowed fc" "result_is_composite fc"
    and v: "fold (view_call (guc_intervals_count cfg)) cs view_zero = v"
  shows "\<exists>rows. snapshot_after K cfg now cs fc = Inr rows \<and>
           rolling_sum (run_from K cfg now cs) X j = Some (v_rolling v) \<and>
           ring_index (run_from K cfg now cs) = Some (v_index v) \<and>
           (\<forall>i. ring_slot (run_from K cfg now cs) X j i = Some (v_ring v ! i)) \<and>
           \<lparr>row_time_interval = None, row_type = message_type_names K ! j,
            row_message = ''TOTAL'', row_count = v_total v\<rparr> \<in> set rows \<and>
           (\<lparr>row_time_interval = Some (c_div (guc_interval cfg) 1000 * guc_intervals_count cfg),
             row_type = message_type_names K ! j,
             row_message = nm, row_count = v_rolling v\<rparr> \<in> set rows \<longleftrightarrow> 0 <s v_rolling v) \<and>
           (\<lparr>row_time_interval = Some (c_div (guc_interval cfg) 1000),
             row_type = message_type_names K ! j, row_message = nm,
             row_count =
               v_ring v ! unat ((v_index v - 1 + guc_intervals_count cfg)
                                  mod guc_intervals_count cfg)\<rparr>
               \<in> set rows \<longleftrightarrow>
            0 <s v_ring v ! unat ((v_index v - 1 + guc_intervals_count cfg)
                                   mod guc_intervals_count cfg))"
proof -
  from tracks_run_from [OF K cfg X j cs, of now] v
  obtain s where s: "run_from K cfg now cs = Inr s"
    "tracks K s X j nm (guc_interval cfg) (guc_intervals_count cfg) v"
    by auto
  from tracks_snapshot [OF j X s(2) fc] tracks_rolling_sum [OF s(2)] tracks_ring_slot [OF s(2)]
    tracks_ring_index [OF s(2)] s(1)
  show ?thesis
    by (simp add: snapshot_after_def)
qed

lemma scenario_snapshot:
  assumes K: "constants_ok K" and X: "(X, nm) \<in> set (error_table K)"
    and j: "j < message_types_count"
    and cfg: "guc_interval cfg = 1000" "guc_intervals_count cfg = 3"
    and cs: "\<forall>c \<in> set cs. about K X j c"
    and fc: "rsinfo_is_ReturnSetInfo fc" "materialize_allowed fc" "result_is_composite fc"
    and v: "fold (view_call 3) cs view_zero = v"
  shows "\<exists>rows. snapshot_after K cfg now cs fc = Inr rows \<and>
           rolling_sum (run_from K cfg now cs) X j = Some (v_rolling v) \<and>
           ring_index (run_from K cfg now cs) = Some (v_index v) \<and>
           (\<forall>i. ring_slot (run_from K cfg now cs) X j i = Some (v_ring v ! i)) \<and>
           \<lparr>row_time_interval = None, row_type = message_type_names K ! j,
            row_message = ''TOTAL'', row_count = v_total v\<rparr> \<in> set rows \<and>
           (\<lparr>row_time_interval = Some 3, row_type = message_type_names K ! j,
             row_message = nm, row_count = v_rolling v\<rparr> \<in> set rows \<longleftrightarrow> 0 <s v_rolling v) \<and>
           (\<lparr>row_time_interval = Some 1, row_type = message_type_names K ! j,
             row_message = nm, row_count = v_ring v ! unat ((v_index v - 1 + 3) mod 3)\<rparr>
               \<in> set rows \<longleftrightarrow>
            0 <s v_ring v ! unat ((v_index v - 1 + 3) mod 3))"
proof -
  from v cfg have "fold (view_call (guc_intervals_count cfg)) cs view_zero = v" by simp
  from run_snapshot [OF K X j guc_ok_scenario [OF cfg] cs fc this, of now] cfg
  show ?thesis
    by (simp add: c_div_1000)
qed

text \<open>
  C7. With \<^verbatim>\<open>interval = 1000\<close> and \<^verbatim>\<open>intervals_count = 3\<close>, after two messages of a
  tracked level with a registered code and one pass of the worker, the snapshot holds
  the short-interval row of the code with 1 second and count 2, its long-interval row
  with 3 seconds and count 2, and the \<^verbatim>\<open>TOTAL\<close> row of the level with count 2. The
  rolling sum of the code is 2, the index is 1, and the count of the short interval is
  that of the slot \<open>(1 - 1 + 3) mod 3\<close>.
\<close>

theorem scenario_A_snapshot:
  assumes "constants_ok K" and "(X, nm) \<in> set (error_table K)"
    and "j < message_types_count"
    and "guc_interval cfg = 1000" and "guc_intervals_count cfg = 3"
    and "MyProc proc" and "\<not> proc_exit_inprogress proc"
    and "elevel edata = message_types_codes K ! j" and "sqlerrcode edata = X"
    and "rsinfo_is_ReturnSetInfo fc" and "materialize_allowed fc" and "result_is_composite fc"
  shows "\<exists>rows. snapshot_after K cfg now [Log proc edata, Log proc edata, Tick] fc = Inr rows \<and>
           rolling_sum (run_from K cfg now [Log proc edata, Log proc edata, Tick]) X j = Some 2 \<and>
           ring_index (run_from K cfg now [Log proc edata, Log proc edata, Tick]) = Some 1 \<and>
           ring_slot (run_from K cfg now [Log proc edata, Log proc edata, Tick]) X j
             (unat ((1 - 1 + 3 :: uint32) mod 3)) = Some 2 \<and>
           \<lparr>row_time_interval = Some 1, row_type = message_type_names K ! j,
            row_message = nm, row_count = 2\<rparr> \<in> set rows \<and>
           \<lparr>row_time_interval = Some 3, row_type = message_type_names K ! j,
            row_message = nm, row_count = 2\<rparr> \<in> set rows \<and>
           \<lparr>row_time_interval = None, row_type = message_type_names K ! j,
            row_message = ''TOTAL'', row_count = 2\<rparr> \<in> set rows"
proof -
  from about_scenario_A [OF assms(6-9), of 0]
  have cs: "\<forall>c \<in> set (scenario_A proc edata). about K X j c" by simp
  from scenario_snapshot [OF assms(1-5) cs assms(10-12) view_scenario_A, of now]
  obtain rows where rows:
    "snapshot_after K cfg now [Log proc edata, Log proc edata, Tick] fc = Inr rows"
    "rolling_sum (run_from K cfg now [Log proc edata, Log proc edata, Tick]) X j = Some 2"
    "ring_index (run_from K cfg now [Log proc edata, Log proc edata, Tick]) = Some 1"
    "\<And>i. ring_slot (run_from K cfg now [Log proc edata, Log proc edata, Tick]) X j i =
       Some ((replicate max_number_of_intervals 0)[0 := 2] ! i)"
    "\<lparr>row_time_interval = None, row_type = message_type_names K ! j,
      row_message = ''TOTAL'', row_count = 2\<rparr> \<in> set rows"
    "\<lparr>row_time_interval = Some 3, row_type = message_type_names K ! j,
      row_message = nm, row_count = 2\<rparr> \<in> set rows"
    "\<lparr>row_time_interval = Some 1, row_type = message_type_names K ! j,
      row_message = nm, row_count = 2\<rparr> \<in> set rows"
    by (simp add: scenario_A_def max_number_of_intervals_def word_sless_alt) blast
  from rows(4) [of 0]
  have "ring_slot (run_from K cfg now [Log proc edata, Log proc edata, Tick]) X j
          (unat ((1 - 1 + 3 :: uint32) mod 3)) = Some 2"
    by (simp add: max_number_of_intervals_def)
  with rows show ?thesis by blast
qed

theorem scenario_A_snapshot_witness:
  "\<exists>rows. snapshot_after sample_constants sample_guc 7
             [Log sample_backend sample_error, Log sample_backend sample_error, Tick]
             sample_fcinfo = Inr rows \<and>
     rolling_sum (run_from sample_constants sample_guc 7
       [Log sample_backend sample_error, Log sample_backend sample_error, Tick]) 16801924 1 = Some 2 \<and>
     ring_index (run_from sample_constants sample_guc 7
       [Log sample_backend sample_error, Log sample_backend sample_error, Tick]) = Some 1 \<and>
     ring_slot (run_from sample_constants sample_guc 7
       [Log sample_backend sample_error, Log sample_backend sample_error, Tick]) 16801924 1
       (unat ((1 - 1 + 3 :: uint32) mod 3)) = Some 2 \<and>
     \<lparr>row_time_interval = Some 1, row_type = ''ERROR'',
      row_message = ''ERRCODE_SYNTAX_ERROR'', row_count = 2\<rparr> \<in> set rows \<and>
     \<lparr>row_time_interval = Some 3, row_type = ''ERROR'',
      row_message = ''ERRCODE_SYNTAX_ERROR'', row_count = 2\<rparr> \<in> set rows \<and>
     \<lparr>row_time_interval = None, row_type = ''ERROR'',
      row_message = ''TOTAL'', row_count = 2\<rparr> \<in> set rows"
  using scenario_A_snapshot [of sample_constants 16801924 "''ERRCODE_SYNTAX_ERROR''" 1
      sample_guc sample_backend sample_error sample_fcinfo 7, OF constants_ok_sample]
  by (simp add: sample_constants_def sample_guc_def sample_backend_def sample_error_def
      sample_fcinfo_def message_types_count_def)

lemma scenario_B_two_ticks:
  assumes "constants_ok K" and "(X, nm) \<in> set (error_table K)"
    and "j < message_types_count"
    and "guc_interval cfg = 1000" and "guc_intervals_count cfg = 3"
    and "MyProc proc" and "\<not> proc_exit_inprogress proc"
    and "elevel edata = message_types_codes K ! j" and "sqlerrcode edata = X"
    and "rsinfo_is_ReturnSetInfo fc" and "materialize_allowed fc" and "result_is_composite fc"
  shows "\<exists>rows. snapshot_after K cfg now (scenario_A proc edata @ [Tick, Tick]) fc = Inr rows \<and>
           rolling_sum (run_from K cfg now (scenario_A proc edata @ [Tick, Tick])) X j = Some 2 \<and>
           \<lparr>row_time_interval = Some 3, row_type = message_type_names K ! j,
            row_message = nm, row_count = 2\<rparr> \<in> set rows \<and>
           \<lparr>row_time_interval = Some 1, row_type = message_type_names K ! j,
            row_message = nm, row_count = 0\<rparr> \<notin> set rows"
proof -
  from about_scenario_A [OF assms(6-9), of 2]
  have cs: "\<forall>c \<in> set (scenario_A proc edata @ [Tick, Tick]). about K X j c"
    by (simp add: numeral_2_eq_2)
  from scenario_snapshot [OF assms(1-5) cs assms(10-12) view_scenario_B, of now]
  show ?thesis
    by (simp add: max_number_of_intervals_def word_sless_alt) blast
qed

lemma scenario_rows:
  assumes K: "constants_ok K" and X: "(X, nm) \<in> set (error_table K)"
    and j: "j < message_types_count"
    and cfg: "guc_interval cfg = 1000" "guc_intervals_count cfg = 3"
    and cs: "\<forall>c \<in> set cs. about K X j c"
    and fc: "rsinfo_is_ReturnSetInfo fc" "materialize_allowed fc" "result_is_composite fc"
    and v: "fold (view_call 3) cs view_zero = v"
  shows "\<exists>s tbl g. run_from K cfg now cs = Inr s \<and>
           messages_info_hashtable s = Some tbl \<and> global_variables s = Some g \<and>
           snapshot_after K cfg now cs fc = Inr (snapshot_rows K g tbl) \<and>
           rolling_sum (run_from K cfg now cs) X j = Some (v_rolling v) \<and>
           category_rows K g tbl j X =
             (if 0 <s v_rolling v
              then [\<lparr>row_time_interval = Some 3, row_type = message_type_names K ! j,
                     row_message = nm, row_count = v_rolling v\<rparr>]
              else []) @
             (if 0 <s v_ring v ! unat ((v_index v - 1 + 3) mod 3)
              then [\<lparr>row_time_interval = Some 1, row_type = message_type_names K ! j,
                     row_message = nm,
                     row_count = v_ring v ! unat ((v_index v - 1 + 3) mod 3)\<rparr>]
              else [])"
proof -
  from tracks_run_from [OF K guc_ok_scenario [OF cfg] X j cs, of now] cfg v
  obtain s where s: "run_from K cfg now cs = Inr s" "tracks K s X j nm 1000 3 v"
    by auto
  from tracks_category [OF s(2) fc] obtain tbl g where
    tg: "messages_info_hashtable s = Some tbl" "global_variables s = Some g"
      "pg_log_errors_stats K fc s = Inr (snapshot_rows K g tbl)"
    and rows: "category_rows K g tbl j X =
             (if 0 <s v_rolling v
              then [\<lparr>row_time_interval = Some (c_div 1000 1000 * 3),
                     row_type = message_type_names K ! j,
                     row_message = nm, row_count = v_rolling v\<rparr>]
              else []) @
             (if 0 <s v_ring v ! unat ((v_index v - 1 + 3) mod 3)
              then [\<lparr>row_time_interval = Some (c_div 1000 1000),
                     row_type = message_type_names K ! j, row_message = nm,
                     row_count = v_ring v ! unat ((v_index v - 1 + 3) mod 3)\<rparr>]
              else [])"
    by blast
  from s(1) tg(3) have "snapshot_after K cfg now cs fc = Inr (snapshot_rows K g tbl)"
    by (simp add: snapshot_after_def)
  moreover from rows have "category_rows K g tbl j X =
             (if 0 <s v_rolling v
              then [\<lparr>row_time_interval = Some 3, row_type = message_type_names K ! j,
                     row_message = nm, row_count = v_rolling v\<rparr>]
              else []) @
             (if 0 <s v_ring v ! unat ((v_index v - 1 + 3) mod 3)
              then [\<lparr>row_time_interval = Some 1, row_type = message_type_names K ! j,
                     row_message = nm,
                     row_count = v_ring v ! unat ((v_index v - 1 + 3) mod 3)\<rparr>]
              else [])"
    by (simp add: c_div_1000)
  ultimately show ?thesis
    using s(1) tg(1,2) tracks_rolling_sum [OF s(2)] by auto
qed

lemma scenario_B_two_ticks_rows:
  assumes "constants_ok K" and "(X, nm) \<in> set (error_table K)"
    and "j < message_types_count"
    and "guc_interval cfg = 1000" and "guc_intervals_count cfg = 3"
    and "MyProc proc" and "\<not> proc_exit_inprogress proc"
    and "elevel edata = message_types_codes K ! j" and "sqlerrcode edata = X"
    and "rsinfo_is_ReturnSetInfo fc" and "materialize_allowed fc" and "result_is_composite fc"
  shows "\<exists>s tbl g. run_from K cfg now (scenario_A proc edata @ [Tick, Tick]) = Inr s \<and>
           messages_info_hashtable s = Some tbl \<and> global_variables s = Some g \<and>
           snapshot_after K cfg now (scenario_A proc edata @ [Tick, Tick]) fc =
             Inr (snapshot_rows K g tbl) \<and>
           rolling_sum (run_from K cfg now (scenario_A proc edata @ [Tick, Tick])) X j = Some 2 \<and>
           category_rows K g tbl j X =
             [\<lparr>row_time_interval = Some 3, row_type = message_type_names K ! j,
               row_message = nm, row_count = 2\<rparr>]"
proof -
  from about_scenario_A [OF assms(6-9), of 2]
  have cs: "\<forall>c \<in> set (scenario_A proc edata @ [Tick, Tick]). about K X j c"
    by (simp add: numeral_2_eq_2)
  from scenario_rows [OF assms(1-5) cs assms(10-12) view_scenario_B, of now]
  show ?thesis
    by (simp add: max_number_of_intervals_def word_sless_alt)
qed

lemma scenario_B_three_ticks_rows:
  assumes "constants_ok K" and "(X, nm) \<in> set (error_table K)"
    and "j < message_types_count"
    and "guc_interval cfg = 1000" and "guc_intervals_count cfg = 3"
    and "MyProc proc" and "\<not> proc_exit_inprogress proc"
    and "elevel edata = message_types_codes K ! j" and "sqlerrcode edata = X"
    and "rsinfo_is_ReturnSetInfo fc" and "materialize_allowed fc" and "result_is_composite fc"
  shows "\<exists>s tbl g. run_from K cfg now (scenario_A proc edata @ [Tick, Tick, Tick]) = Inr s \<and>
           messages_info_hashtable s = Some tbl \<and> global_variables s = Some g \<and>
           snapshot_after K cfg now (scenario_A proc edata @ [Tick, Tick, Tick]) fc =
             Inr (snapshot_rows K g tbl) \<and>
           rolling_sum (run_from K cfg now (scenario_A proc edata @ [Tick, Tick, Tick])) X j
             = Some 0 \<and>
           category_rows K g tbl j X = []"
proof -
  from about_scenario_A [OF assms(6-9), of 3]
  have cs: "\<forall>c \<in> set (scenario_A proc edata @ [Tick, Tick, Tick]). about K X j c"
    by (simp add: numeral_3_eq_3)
  from scenario_rows [OF assms(1-5) cs assms(10-12) view_scenario_B_next, of now]
  show ?thesis
    by (simp add: max_number_of_intervals_def word_sless_alt)
qed

text \<open>
  C3, as the code has it. From the state of scenario A, after two more passes of the
  worker without a message the value 2 is still in the ring: the rolling sum of the code
  is 2, and of the rows of the snapshot those of the code and level are the
  long-interval row (3 seconds, count 2) alone, with no short-interval row. The pass
  after that one, the fourth since the messages, overwrites the slot: the rolling sum is
  0 and the snapshot has no row of the code and level at all.
\<close>

theorem scenario_B_eviction:
  assumes "constants_ok K" and "(X, nm) \<in> set (error_table K)"
    and "j < message_types_count"
    and "guc_interval cfg = 1000" and "guc_intervals_count cfg = 3"
    and "MyProc proc" and "\<not> proc_exit_inprogress proc"
    and "elevel edata = message_types_codes K ! j" and "sqlerrcode edata = X"
    and "rsinfo_is_ReturnSetInfo fc" and "materialize_allowed fc" and "result_is_composite fc"
  shows "(\<exists>s tbl g. run_from K cfg now (scenario_A proc edata @ [Tick, Tick]) = Inr s \<and>
            messages_info_hashtable s = Some tbl \<and> global_variables s = Some g \<and>
            snapshot_after K cfg now (scenario_A proc edata @ [Tick, Tick]) fc =
              Inr (snapshot_rows K g tbl) \<and>
            rolling_sum (run_from K cfg now (scenario_A proc edata @ [Tick, Tick])) X j = Some 2 \<and>
            category_rows K g tbl j X =
              [\<lparr>row_time_interval = Some 3, row_type = message_type_names K ! j,
                row_message = nm, row_count = 2\<rparr>] \<and>
            \<lparr>row_time_interval = Some 3, row_type = message_type_names K ! j,
             row_message = nm, row_count = 2\<rparr> \<in> set (snapshot_rows K g tbl)) \<and>
         (\<exists>s tbl g. run_from K cfg now (scenario_A proc edata @ [Tick, Tick, Tick]) = Inr s \<and>
            messages_info_hashtable s = Some tbl \<and> global_variables s = Some g \<and>
            snapshot_after K cfg now (scenario_A proc edata @ [Tick, Tick, Tick]) fc =
              Inr (snapshot_rows K g tbl) \<and>
            rolling_sum (run_from K cfg now (scenario_A proc edata @ [Tick, Tick, Tick])) X j
              = Some 0 \<and>
            category_rows K g tbl j X = [])"
proof (rule conjI)
  from assms(2) have Xc: "X \<in> set (error_codes K)" by (force simp: error_codes_def)
  from scenario_B_two_ticks_rows [OF assms, of now] obtain s tbl g where
    r: "run_from K cfg now (scenario_A proc edata @ [Tick, Tick]) = Inr s"
      "messages_info_hashtable s = Some tbl" "global_variables s = Some g"
      "snapshot_after K cfg now (scenario_A proc edata @ [Tick, Tick]) fc =
         Inr (snapshot_rows K g tbl)"
      "rolling_sum (run_from K cfg now (scenario_A proc edata @ [Tick, Tick])) X j = Some 2"
    and rows: "category_rows K g tbl j X =
              [\<lparr>row_time_interval = Some 3, row_type = message_type_names K ! j,
                row_message = nm, row_count = 2\<rparr>]"
    by blast
  from rows have "\<lparr>row_time_interval = Some 3, row_type = message_type_names K ! j,
       row_message = nm, row_count = 2\<rparr> \<in> set (category_rows K g tbl j X)" by simp
  from category_rows_in_snapshot [OF assms(3) Xc this] r rows
  show "\<exists>s tbl g. run_from K cfg now (scenario_A proc edata @ [Tick, Tick]) = Inr s \<and>
            messages_info_hashtable s = Some tbl \<and> global_variables s = Some g \<and>
            snapshot_after K cfg now (scenario_A proc edata @ [Tick, Tick]) fc =
              Inr (snapshot_rows K g tbl) \<and>
            rolling_sum (run_from K cfg now (scenario_A proc edata @ [Tick, Tick])) X j = Some 2 \<and>
            category_rows K g tbl j X =
              [\<lparr>row_time_interval = Some 3, row_type = message_type_names K ! j,
                row_message = nm, row_count = 2\<rparr>] \<and>
            \<lparr>row_time_interval = Some 3, row_type = message_type_names K ! j,
             row_message = nm, row_count = 2\<rparr> \<in> set (snapshot_rows K g tbl)"
    by blast
next
  show "\<exists>s tbl g. run_from K cfg now (scenario_A proc edata @ [Tick, Tick, Tick]) = Inr s \<and>
            messages_info_hashtable s = Some tbl \<and> global_variables s = Some g \<and>
            snapshot_after K cfg now (scenario_A proc edata @ [Tick, Tick, Tick]) fc =
              Inr (snapshot_rows K g tbl) \<and>
            rolling_sum (run_from K cfg now (scenario_A proc edata @ [Tick, Tick, Tick])) X j
              = Some 0 \<and>
            category_rows K g tbl j X = []"
    by (rule scenario_B_three_ticks_rows [OF assms])
qed

theorem scenario_B_eviction_witness:
  "(\<exists>s tbl g. run_from sample_constants sample_guc 7
              (scenario_A sample_backend sample_error @ [Tick, Tick]) = Inr s \<and>
      messages_info_hashtable s = Some tbl \<and> global_variables s = Some g \<and>
      snapshot_after sample_constants sample_guc 7
        (scenario_A sample_backend sample_error @ [Tick, Tick]) sample_fcinfo =
        Inr (snapshot_rows sample_constants g tbl) \<and>
      rolling_sum (run_from sample_constants sample_guc 7
        (scenario_A sample_backend sample_error @ [Tick, Tick])) 16801924 1 = Some 2 \<and>
      category_rows sample_constants g tbl 1 16801924 =
        [\<lparr>row_time_interval = Some 3, row_type = ''ERROR'',
          row_message = ''ERRCODE_SYNTAX_ERROR'', row_count = 2\<rparr>] \<and>
      \<lparr>row_time_interval = Some 3, row_type = ''ERROR'',
       row_message = ''ERRCODE_SYNTAX_ERROR'', row_count = 2\<rparr>
        \<in> set (snapshot_rows sample_constants g tbl)) \<and>
   (\<exists>s tbl g. run_from sample_constants sample_guc 7
              (scenario_A sample_backend sample_error @ [Tick, Tick, Tick]) = Inr s \<and>
      messages_info_hashtable s = Some tbl \<and> global_variables s = Some g \<and>
      snapshot_after sample_constants sample_guc 7
        (scenario_A sample_backend sample_error @ [Tick, Tick, Tick]) sample_fcinfo =
        Inr (snapshot_rows sample_constants g tbl) \<and>
      rolling_sum (run_from sample_constants sample_guc 7
        (scenario_A sample_backend sample_error @ [Tick, Tick, Tick])) 16801924 1 = Some 0 \<and>
      category_rows sample_constants g tbl 1 16801924 = [])"
  using scenario_B_eviction [of sample_constants 16801924 "''ERRCODE_SYNTAX_ERROR''" 1
      sample_guc sample_backend sample_error sample_fcinfo 7, OF constants_ok_sample]
  by (simp add: sample_constants_def sample_guc_def sample_backend_def sample_error_def
      sample_fcinfo_def message_types_count_def)

text \<open>
  C3 as the specification states it (eviction by the third pass) fails: with the sample
  tables, after scenario A and two more passes the rolling sum of the code is 2, not 0,
  and the long-interval row of the code is in the snapshot.
\<close>

theorem scenario_B_counterexample:
  "rolling_sum (run_from sample_constants sample_guc 7
      (scenario_A sample_backend sample_error @ [Tick, Tick])) 16801924 1 = Some 2 \<and>
   rolling_sum (run_from sample_constants sample_guc 7
      (scenario_A sample_backend sample_error @ [Tick, Tick])) 16801924 1 \<noteq> Some 0 \<and>
   emitted (snapshot_after sample_constants sample_guc 7
      (scenario_A sample_backend sample_error @ [Tick, Tick]) sample_fcinfo)
     \<lparr>row_time_interval = Some 3, row_type = ''ERROR'',
      row_message = ''ERRCODE_SYNTAX_ERROR'', row_count = 2\<rparr>"
proof -
  have "\<exists>rows. snapshot_after sample_constants sample_guc 7
              (scenario_A sample_backend sample_error @ [Tick, Tick]) sample_fcinfo = Inr rows \<and>
      rolling_sum (run_from sample_constants sample_guc 7
        (scenario_A sample_backend sample_error @ [Tick, Tick])) 16801924 1 = Some 2 \<and>
      \<lparr>row_time_interval = Some 3, row_type = ''ERROR'',
       row_message = ''ERRCODE_SYNTAX_ERROR'', row_count = 2\<rparr> \<in> set rows \<and>
      \<lparr>row_time_interval = Some 1, row_type = ''ERROR'',
       row_message = ''ERRCODE_SYNTAX_ERROR'', row_count = 0\<rparr> \<notin> set rows"
    using scenario_B_two_ticks [of sample_constants 16801924 "''ERRCODE_SYNTAX_ERROR''" 1
      sample_guc sample_backend sample_error sample_fcinfo 7, OF constants_ok_sample]
    by (simp add: sample_constants_def sample_guc_def sample_backend_def sample_error_def
      sample_fcinfo_def message_types_count_def)
  then show ?thesis
    by (auto simp: emitted_def)
qed

subsection \<open>The reset and the ring\<close>

lemma guc_ok_default: "guc_ok default_guc"
  by (simp add: guc_ok_def default_guc_def)

lemma unat_small: "k < 120 \<Longrightarrow> unat (word_of_nat k :: 32 word) = k"
  by (rule of_nat_inverse) simp_all

lemma view_idle_ticks:
  "k < 120 \<Longrightarrow>
   fold (view_call 120) (replicate k Tick) view_zero = view_zero\<lparr>v_index := word_of_nat k\<rparr>"
proof (induction k)
  case 0
  then show ?case by (simp add: view_zero_def)
next
  case (Suc k)
  then have k: "k < 120" by simp
  have "unat (word_of_nat (Suc k) :: 32 word) < unat (120 :: 32 word)"
    using Suc.prems unat_small [of "Suc k"] by (simp del: of_nat_Suc)
  then have "(word_of_nat k + 1 :: 32 word) < 120"
    by (simp add: word_less_nat_alt add.commute)
  then have idx: "(word_of_nat k + 1 :: 32 word) mod 120 = word_of_nat k + 1"
    by (rule mod_word_less)
  have "replicate (Suc k) Tick = replicate k Tick @ [Tick]"
    by (simp add: replicate_append_same)
  then have "fold (view_call 120) (replicate (Suc k) Tick) view_zero =
               view_call 120 Tick (view_zero\<lparr>v_index := word_of_nat k\<rparr>)"
    using Suc.IH [OF k] by (simp del: replicate_Suc)
  also have "\<dots> = view_zero\<lparr>v_index := word_of_nat k + 1\<rparr>"
    using k
    by (simp add: idx view_zero_def unat_small max_number_of_intervals_def
        replicate_update_same)
  finally show ?case by (simp add: add.commute)
qed

lemma view_stale_calls:
  "fold (view_call 120) (stale_calls proc edata now) view_zero =
     \<lparr>v_bucket = 0, v_rolling = 0,
      v_ring = MemSet_u32 ((replicate max_number_of_intervals 0)[119 := 1])
                 max_number_of_intervals,
      v_index = 0, v_total = 0\<rparr>"
proof -
  have "fold (view_call 120) (replicate 119 Tick) view_zero = view_zero\<lparr>v_index := 119\<rparr>"
    using view_idle_ticks [of 119] by simp
  then show ?thesis
    by (simp add: stale_calls_def view_zero_def max_number_of_intervals_def)
qed

lemma stale_after_reset:
  assumes K: "constants_ok K" and X: "(X, nm) \<in> set (error_table K)"
    and j: "j < message_types_count"
    and proc: "MyProc proc" "\<not> proc_exit_inprogress proc"
    and ed: "elevel edata = message_types_codes K ! j" "sqlerrcode edata = X"
    and fc: "rsinfo_is_ReturnSetInfo fc" "materialize_allowed fc" "result_is_composite fc"
  shows "\<exists>rows. snapshot_after K default_guc now0 (stale_calls proc edata now) fc = Inr rows \<and>
           rolling_sum (run_from K default_guc now0 (stale_calls proc edata now)) X j = Some 0 \<and>
           ring_slot (run_from K default_guc now0 (stale_calls proc edata now)) X j 119 = Some 1 \<and>
           \<lparr>row_time_interval = Some 5, row_type = message_type_names K ! j,
            row_message = nm, row_count = 1\<rparr> \<in> set rows"
proof -
  have cs: "\<forall>c \<in> set (stale_calls proc edata now). about K X j c"
    using proc ed by (auto simp: stale_calls_def)
  have v: "fold (view_call (guc_intervals_count default_guc)) (stale_calls proc edata now)
             view_zero =
           \<lparr>v_bucket = 0, v_rolling = 0,
            v_ring = MemSet_u32 ((replicate max_number_of_intervals 0)[119 := 1])
                       max_number_of_intervals,
            v_index = 0, v_total = 0\<rparr>"
    using view_stale_calls [of proc edata now] by (simp add: default_guc_def)
  have slot: "MemSet_u32 ((replicate max_number_of_intervals 0)[119 := 1])
                max_number_of_intervals ! 119 = 1"
    by (simp add: nth_MemSet_u32 max_number_of_intervals_def)
  have five: "c_div (guc_interval default_guc) 1000 = 5"
    by (simp add: c_div_def default_guc_def)
  have prev: "unat ((guc_intervals_count default_guc - 1) mod guc_intervals_count default_guc)
                = 119"
    by (simp add: default_guc_def)
  from run_snapshot [OF K X j guc_ok_default cs fc v, of now0]
  show ?thesis
    using slot by (simp add: five prev word_sless_alt) metis
qed

lemma reset_clears:
  assumes K: "constants_ok K" and ok: "state_ok K s"
    and s: "messages_info_hashtable s = Some tbl" "global_variables s = Some g"
    and e: "tbl c = Some e" and j: "j < message_types_count"
  shows "\<exists>s' tbl' g' e'. pg_log_errors_reset K now s = Inr s' \<and>
           messages_info_hashtable s' = Some tbl' \<and> global_variables s' = Some g' \<and>
           tbl' c = Some e' \<and>
           message_count e' ! j = 0 \<and> sum_in_buffer e' ! j = 0 \<and>
           (\<forall>i < 90. intervals e' ! j ! i = 0) \<and>
           (\<forall>i. 90 \<le> i \<and> i < max_number_of_intervals \<longrightarrow>
                intervals e' ! j ! i = intervals e ! j ! i) \<and>
           total_count g' ! j = 0 \<and>
           slow_log_info g' = \<lparr>count = 0, reset_time = now\<rparr>"
proof -
  from ok s have dom: "dom tbl = set (error_codes K)"
    and len: "length (total_count g) = message_types_count"
    by (auto simp: state_ok_def)
  from ok s e have ent: "entry_ok e" by (auto simp: state_ok_def)
  with j have row: "length (intervals e ! j) = max_number_of_intervals"
    by (simp add: entry_ok_def)
  from dom e obtain nm where nm: "(c, nm) \<in> set (error_table K)"
    by (force simp: error_codes_def)
  from K have "distinct (map fst (error_table K))"
    by (simp add: constants_ok_def error_codes_def)
  from init_entries_lookup [OF this nm, of tbl] e
  have e': "init_entries (error_table K) tbl c = Some (init_elem nm e)"
    by (simp add: hash_enter_def)
  have "intervals (init_elem nm e) ! j ! i = 0" if "i < 90" for i
    using that row by (simp add: init_elem_fields [OF ent j] nth_MemSet_u32
        max_number_of_intervals_def)
  moreover have "intervals (init_elem nm e) ! j ! i = intervals e ! j ! i"
    if "90 \<le> i \<and> i < max_number_of_intervals" for i
    using that row by (simp add: init_elem_fields [OF ent j] nth_MemSet_u32
        max_number_of_intervals_def)
  ultimately show ?thesis
    using s e' init_elem_fields(1,2) [OF ent j, of nm] init_total_count_nth [OF len j]
    by (simp add: pg_log_errors_reset_def logerrors_init_def slow_log_info_init_def)
qed

text \<open>
  C2. That a reset leaves every slot of every ring at zero, and the snapshot after it
  without a row of a code, fails on the code. \<^verbatim>\<open>logerrors_init\<close> clears the ring of a
  type with
  \<^verbatim>\<open>MemSet(&(elem->intervals[j]), 0, max_number_of_intervals)\<close>, whose length is a count of
  bytes: 360 bytes are the first 90 of the 4-byte slots. With the default configuration
  (\<^verbatim>\<open>interval = 5000\<close>, \<^verbatim>\<open>intervals_count = 120\<close>), after 119 passes of the worker, one
  message, one more pass and a reset, slot 119 of the entry still holds 1 while the
  rolling sum is 0, and the snapshot holds a short-interval row with that count.
\<close>

theorem reset_leaves_stale_slot:
  "ring_slot (run_from sample_constants default_guc 7
      (stale_calls sample_backend sample_error 8)) 16801924 1 119 = Some 1 \<and>
   rolling_sum (run_from sample_constants default_guc 7
      (stale_calls sample_backend sample_error 8)) 16801924 1 = Some 0 \<and>
   emitted (snapshot_after sample_constants default_guc 7
      (stale_calls sample_backend sample_error 8) sample_fcinfo)
     \<lparr>row_time_interval = Some 5, row_type = ''ERROR'',
      row_message = ''ERRCODE_SYNTAX_ERROR'', row_count = 1\<rparr>"
proof -
  have "\<exists>rows. snapshot_after sample_constants default_guc 7
             (stale_calls sample_backend sample_error 8) sample_fcinfo = Inr rows \<and>
           rolling_sum (run_from sample_constants default_guc 7
             (stale_calls sample_backend sample_error 8)) 16801924 1 = Some 0 \<and>
           ring_slot (run_from sample_constants default_guc 7
             (stale_calls sample_backend sample_error 8)) 16801924 1 119 = Some 1 \<and>
           \<lparr>row_time_interval = Some 5, row_type = ''ERROR'',
            row_message = ''ERRCODE_SYNTAX_ERROR'', row_count = 1\<rparr> \<in> set rows"
    using stale_after_reset [of sample_constants 16801924 "''ERRCODE_SYNTAX_ERROR''" 1
      sample_backend sample_error sample_fcinfo 7 8, OF constants_ok_sample]
    by (simp add: sample_constants_def sample_backend_def sample_error_def
      sample_fcinfo_def message_types_count_def)
  then show ?thesis
    by (auto simp: emitted_def)
qed

end
